theory Spec2Isabelle
  imports Main "HOL-Library.Word"
begin

section \<open>Outcomes\<close>

text \<open>
  A call of the debugger's C code either returns, or the process stops. The ways in
  which it stops are values of \<open>error\<close>:
  \<^item> \<open>AssertFail\<close>: an \<open>assert\<close> fails (\<open>assert(0)\<close> included) and the process aborts;
  \<^item> \<open>OutOfBounds\<close>: an access outside a fixed-size buffer, to storage whose content these
    sources do not determine (undefined behaviour in C);
  \<^item> \<open>DivTrap\<close>: an \<open>int64_t\<close> division by zero, or \<open>INT64_MIN / -1\<close> (undefined
    behaviour in C; the host's division instruction traps).
\<close>

datatype error = AssertFail | OutOfBounds | DivTrap

text \<open>
  \<open>word_t\<close> is declared in \<open>isa.h\<close>, outside these sources; the debugger prints it with
  \<open>%lu\<close> and reads memory in words of 8 bytes, so it is taken as 64 bits wide.
\<close>

type_synonym word_t = "64 word"

section \<open>expr.c: token kinds\<close>

text \<open>
  \<open>token_enum_t\<close>: the single-character kinds carry their ASCII code, the others count
  up from 256. \<open>Token.type\<close> is a C \<open>int\<close> and the static buffer starts zeroed, so
  the kinds are the integers the enumeration gives them.
\<close>

abbreviation DUMMY_1 :: int where "DUMMY_1 \<equiv> 43"
abbreviation DUMMY_2 :: int where "DUMMY_2 \<equiv> 45"
abbreviation DUMMY_3 :: int where "DUMMY_3 \<equiv> 42"
abbreviation TK_DIV :: int where "TK_DIV \<equiv> 47"
abbreviation TK_PAR_L :: int where "TK_PAR_L \<equiv> 40"
abbreviation TK_PAR_R :: int where "TK_PAR_R \<equiv> 41"
abbreviation TK_BOOL_LT :: int where "TK_BOOL_LT \<equiv> 60"
abbreviation TK_BOOL_GT :: int where "TK_BOOL_GT \<equiv> 62"
abbreviation TK_NOTYPE :: int where "TK_NOTYPE \<equiv> 256"
abbreviation TK_BOOL_EQ :: int where "TK_BOOL_EQ \<equiv> 257"
abbreviation TK_INT :: int where "TK_INT \<equiv> 258"
abbreviation TK_REG :: int where "TK_REG \<equiv> 259"
abbreviation TK_BOOL_LE :: int where "TK_BOOL_LE \<equiv> 260"
abbreviation TK_BOOL_GE :: int where "TK_BOOL_GE \<equiv> 261"
abbreviation TK_ADD :: int where "TK_ADD \<equiv> 262"
abbreviation TK_MINUS :: int where "TK_MINUS \<equiv> 263"
abbreviation TK_MUL :: int where "TK_MUL \<equiv> 264"
abbreviation TK_POS :: int where "TK_POS \<equiv> 265"
abbreviation TK_NEG :: int where "TK_NEG \<equiv> 266"
abbreviation TK_DEREF :: int where "TK_DEREF \<equiv> 267"

text \<open>\<open>get_priority\<close>: 3 unary, 2 mul/div, 1 add/sub, 0 comparison; \<open>assert(0)\<close> otherwise.\<close>

definition get_priority :: "int \<Rightarrow> error + int" where
  "get_priority op_type =
     (if op_type = TK_POS \<or> op_type = TK_NEG \<or> op_type = TK_DEREF then Inr 3
      else if op_type = TK_MUL \<or> op_type = TK_DIV then Inr 2
      else if op_type = TK_ADD \<or> op_type = TK_MINUS then Inr 1
      else if op_type = TK_BOOL_EQ \<or> op_type = TK_BOOL_LT \<or> op_type = TK_BOOL_GT
              \<or> op_type = TK_BOOL_LE \<or> op_type = TK_BOOL_GE then Inr 0
      else Inl AssertFail)"

definition is_operand :: "int \<Rightarrow> bool" where
  "is_operand op_type = (op_type = TK_INT \<or> op_type = TK_REG \<or> op_type = TK_PAR_R)"

section \<open>expr.c: the rule table and the POSIX matcher\<close>

text \<open>
  The compiled patterns \<open>re[i]\<close>. \<open>regexec\<close> is the C library's; \<open>regexec_at0\<close> gives
  what \<open>make_token\<close> keeps of it: \<open>Some rm_eo\<close> when the pattern matches with
  \<open>rm_so = 0\<close> (POSIX reports the leftmost match, and the longest one there), \<open>None\<close>
  otherwise.
  \<^item> \<open>Lit s\<close>: a pattern that matches exactly the text \<open>s\<close>;
  \<^item> \<open>Spaces\<close>: one or more blanks;
  \<^item> \<open>IntLit\<close>: an optional \<open>0x\<close>, then one or more decimal digits;
  \<^item> \<open>RegName\<close>: a dollar sign, then one or more word characters.
\<close>

datatype regex_t = Lit string | Spaces | IntLit | RegName

definition is_digit :: "char \<Rightarrow> bool" where
  "is_digit c = (c \<in> set ''0123456789'')"

definition is_word_char :: "char \<Rightarrow> bool" where
  "is_word_char c =
     (c \<in> set ''abcdefghijklmnopqrstuvwxyzABCDEFGHIJKLMNOPQRSTUVWXYZ0123456789_'')"

definition run_length :: "(char \<Rightarrow> bool) \<Rightarrow> string \<Rightarrow> nat" where
  "run_length P s = length (takeWhile P s)"

fun regexec_at0 :: "regex_t \<Rightarrow> string \<Rightarrow> nat option" where
  "regexec_at0 (Lit p) s =
     (if p \<noteq> [] \<and> take (length p) s = p then Some (length p) else None)"
| "regexec_at0 Spaces s =
     (if run_length (\<lambda>c. c = CHR '' '') s = 0 then None
      else Some (run_length (\<lambda>c. c = CHR '' '') s))"
| "regexec_at0 IntLit s =
     (if take 2 s = ''0x'' \<and> run_length is_digit (drop 2 s) \<noteq> 0
      then Some (2 + run_length is_digit (drop 2 s))
      else if run_length is_digit s = 0 then None
      else Some (run_length is_digit s))"
| "regexec_at0 RegName s =
     (if take 1 s = ''$'' \<and> run_length is_word_char (drop 1 s) \<noteq> 0
      then Some (1 + run_length is_word_char (drop 1 s))
      else None)"

text \<open>The table \<open>rules\<close>, in its declared order.\<close>

definition rules :: "(regex_t \<times> int) list" where
  "rules =
     [(Spaces, TK_NOTYPE),
      (Lit ''+'', DUMMY_1),
      (Lit ''-'', DUMMY_2),
      (Lit ''*'', DUMMY_3),
      (Lit ''/'', TK_DIV),
      (Lit ''=='', TK_BOOL_EQ),
      (IntLit, TK_INT),
      (Lit ''('', TK_PAR_L),
      (Lit '')'', TK_PAR_R),
      (RegName, TK_REG),
      (Lit ''<'', TK_BOOL_LT),
      (Lit ''>'', TK_BOOL_GT),
      (Lit ''<='', TK_BOOL_LE),
      (Lit ''>='', TK_BOOL_GE)]"

text \<open>
  The inner \<open>for\<close> loop of \<open>make_token\<close>: the first rule of the table that matches at the
  scan position, with the length it consumed.
\<close>

fun first_match :: "(regex_t \<times> int) list \<Rightarrow> string \<Rightarrow> (nat \<times> int) option" where
  "first_match [] s = None"
| "first_match ((r, ty) # rs) s =
     (case regexec_at0 r s of Some len \<Rightarrow> Some (len, ty) | None \<Rightarrow> first_match rs s)"

section \<open>expr.c: the static token buffer and the lexer\<close>

record Token =
  type :: int
  str :: string

text \<open>\<open>static Token tokens[32] = {}\<close>: the buffer as the process starts.\<close>

definition tokens_init :: "Token list" where
  "tokens_init = replicate 32 \<lparr>type = 0, str = []\<rparr>"

text \<open>
  The \<open>switch\<close> of \<open>make_token\<close> on the matched rule's kind: blanks emit nothing; a
  register or an integer copies its text (\<open>substr_len + 1\<close> bytes into \<open>char str[32]\<close>);
  \<open>*\<close>, \<open>-\<close>, \<open>+\<close> are resolved against the token emitted before; any other kind is
  stored as it is. A write past \<open>tokens[31]\<close>, or past \<open>str[31]\<close>, is \<open>OutOfBounds\<close>.
  A kind stored without text leaves the slot's old \<open>str\<close> in place.
\<close>

definition emit_token :: "int \<Rightarrow> string \<Rightarrow> Token list \<Rightarrow> nat \<Rightarrow> error + (Token list \<times> nat)" where
  "emit_token ty sub tokens n =
     (if ty = TK_NOTYPE then Inr (tokens, n)
      else if length tokens \<le> n then Inl OutOfBounds
      else if ty = TK_REG \<or> ty = TK_INT then
        (if 32 \<le> length sub then Inl OutOfBounds
         else Inr (tokens[n := \<lparr>type = ty, str = sub\<rparr>], Suc n))
      else if ty = DUMMY_3 \<or> ty = DUMMY_2 \<or> ty = DUMMY_1 then
        (if n = 0 \<or> \<not> is_operand (type (tokens ! (n - 1))) then
           Inr (tokens[n := (tokens ! n)\<lparr>type :=
                  (if ty = DUMMY_1 then TK_POS else if ty = DUMMY_2 then TK_NEG else TK_DEREF)\<rparr>], Suc n)
         else
           Inr (tokens[n := (tokens ! n)\<lparr>type :=
                  (if ty = DUMMY_1 then TK_ADD else if ty = DUMMY_2 then TK_MINUS else TK_MUL)\<rparr>], Suc n))
      else Inr (tokens[n := (tokens ! n)\<lparr>type := ty\<rparr>], Suc n))"

lemma regexec_at0_pos: "regexec_at0 r s = Some len \<Longrightarrow> 0 < len"
  by (cases r) (auto split: if_splits)

lemma first_match_pos: "first_match rs s = Some (len, ty) \<Longrightarrow> 0 < len"
  by (induction rs) (auto split: option.splits dest: regexec_at0_pos)

text \<open>
  The \<open>while\<close> loop of \<open>make_token\<close> over the unconsumed suffix \<open>s\<close> of the input (a C
  string ends at its first NUL). The result is the return value, the buffer and
  \<open>num_of_token\<close>.
\<close>

function make_token_loop :: "string \<Rightarrow> Token list \<Rightarrow> nat \<Rightarrow> error + (bool \<times> Token list \<times> nat)" where
  "make_token_loop s tokens n =
     (if s = [] \<or> hd s = CHR 0x00 then Inr (True, tokens, n)
      else case first_match rules s of
             None \<Rightarrow> Inr (False, tokens, n)
           | Some (len, ty) \<Rightarrow>
               (case emit_token ty (take len s) tokens n of
                  Inl e \<Rightarrow> Inl e
                | Inr (tokens', n') \<Rightarrow> make_token_loop (drop len s) tokens' n'))"
  by pat_completeness auto
termination
  by (relation "measure (\<lambda>(s, tokens, n). length s)") (auto dest: first_match_pos)

definition make_token :: "string \<Rightarrow> Token list \<Rightarrow> error + (bool \<times> Token list \<times> nat)" where
  "make_token str_to_be_parsed tokens = make_token_loop str_to_be_parsed tokens 0"

section \<open>expr.c: the evaluator\<close>

text \<open>A read of \<open>tokens[i]\<close>; outside the buffer it is \<open>OutOfBounds\<close>.\<close>

definition tk_at :: "Token list \<Rightarrow> int \<Rightarrow> error + Token" where
  "tk_at tokens i =
     (if 0 \<le> i \<and> i < int (length tokens) then Inr (tokens ! nat i) else Inl OutOfBounds)"

definition tk_type :: "Token list \<Rightarrow> int \<Rightarrow> error + int" where
  "tk_type tokens i = (case tk_at tokens i of Inl e \<Rightarrow> Inl e | Inr t \<Rightarrow> Inr (type t))"

text \<open>
  \<open>check_parentheses\<close>: the loop from \<open>i\<close> with the running count of open
  parentheses; \<open>false\<close> as soon as the count goes below zero, \<open>true\<close> at the end of the
  range whatever the count is then.
\<close>

function check_parentheses_from :: "Token list \<Rightarrow> int \<Rightarrow> int \<Rightarrow> int \<Rightarrow> error + bool" where
  "check_parentheses_from tokens i end_index num_of_left_parentheses =
     (if i \<le> end_index then
        (case tk_type tokens i of
           Inl e \<Rightarrow> Inl e
         | Inr t \<Rightarrow>
             (let num1 = (if t = TK_PAR_L then num_of_left_parentheses + 1
                          else num_of_left_parentheses)
              in if t = TK_PAR_R then
                   (if num1 - 1 < 0 then Inr False
                    else check_parentheses_from tokens (i + 1) end_index (num1 - 1))
                 else check_parentheses_from tokens (i + 1) end_index num1))
      else Inr True)"
  by pat_completeness auto
termination
  by (relation "measure (\<lambda>(tokens, i, end_index, n). nat (end_index + 1 - i))") auto

definition check_parentheses :: "Token list \<Rightarrow> int \<Rightarrow> int \<Rightarrow> error + bool" where
  "check_parentheses tokens begin_index end_index =
     check_parentheses_from tokens begin_index end_index 0"

text \<open>
  \<open>find_major_operator\<close>: the loop from \<open>i\<close> (it stops before \<open>end_index\<close>) with the
  candidate position, the count of open parentheses and the lowest priority so far.
\<close>

function find_major_operator_from ::
  "Token list \<Rightarrow> int \<Rightarrow> int \<Rightarrow> int \<Rightarrow> int \<Rightarrow> int \<Rightarrow> error + int" where
  "find_major_operator_from tokens i end_index major_op_pos num_of_left_parentheses min_priority =
     (if i < end_index then
        (case tk_type tokens i of
           Inl e \<Rightarrow> Inl e
         | Inr t \<Rightarrow>
             if t = TK_INT then
               find_major_operator_from tokens (i + 1) end_index major_op_pos
                 num_of_left_parentheses min_priority
             else if t = TK_PAR_L then
               find_major_operator_from tokens (i + 1) end_index major_op_pos
                 (num_of_left_parentheses + 1) min_priority
             else if t = TK_PAR_R then
               find_major_operator_from tokens (i + 1) end_index major_op_pos
                 (num_of_left_parentheses - 1) min_priority
             else if num_of_left_parentheses > 0 then
               find_major_operator_from tokens (i + 1) end_index major_op_pos
                 num_of_left_parentheses min_priority
             else if num_of_left_parentheses < 0 then Inl AssertFail
             else
               (case get_priority t of
                  Inl e \<Rightarrow> Inl e
                | Inr p \<Rightarrow>
                    if p \<le> min_priority then
                      find_major_operator_from tokens (i + 1) end_index i
                        num_of_left_parentheses p
                    else
                      find_major_operator_from tokens (i + 1) end_index major_op_pos
                        num_of_left_parentheses min_priority))
      else Inr major_op_pos)"
  by pat_completeness auto
termination
  by (relation "measure (\<lambda>(tokens, i, end_index, m, n, p). nat (end_index - i))") auto

definition find_major_operator :: "Token list \<Rightarrow> int \<Rightarrow> int \<Rightarrow> error + int" where
  "find_major_operator tokens begin_index end_index =
     find_major_operator_from tokens begin_index end_index (- 1) 0 2"

text \<open>
  \<open>strtol(s, NULL, 0)\<close> of the C library: blanks, an optional sign, the base from the
  prefix (\<open>0x\<close> before a hexadecimal digit: 16; a leading \<open>0\<close>: 8; else 10), the
  longest run of digits of that base, saturating at \<open>LONG_MIN\<close> and \<open>LONG_MAX\<close>.
\<close>

definition digit_val :: "char \<Rightarrow> nat option" where
  "digit_val c =
     (let k = (of_char c :: nat)
      in if 48 \<le> k \<and> k \<le> 57 then Some (k - 48)
         else if 97 \<le> k \<and> k \<le> 122 then Some (k - 87)
         else if 65 \<le> k \<and> k \<le> 90 then Some (k - 55)
         else None)"

fun strtol_digits :: "nat \<Rightarrow> string \<Rightarrow> nat \<Rightarrow> nat" where
  "strtol_digits base [] acc = acc"
| "strtol_digits base (c # cs) acc =
     (case digit_val c of
        Some d \<Rightarrow> if d < base then strtol_digits base cs (acc * base + d) else acc
      | None \<Rightarrow> acc)"

definition is_hex_start :: "string \<Rightarrow> bool" where
  "is_hex_start s =
     ((take 2 s = ''0x'' \<or> take 2 s = ''0X'')
      \<and> (case drop 2 s of [] \<Rightarrow> False
          | c # cs \<Rightarrow> (case digit_val c of Some d \<Rightarrow> d < 16 | None \<Rightarrow> False)))"

definition strtol0 :: "string \<Rightarrow> int" where
  "strtol0 s =
     (let s1 = dropWhile (\<lambda>c. c \<in> set [CHR '' '', CHR 0x09, CHR 0x0A, CHR 0x0B, CHR 0x0C, CHR 0x0D]) s;
          neg = (take 1 s1 = ''-'');
          s2 = (if take 1 s1 = ''-'' \<or> take 1 s1 = ''+'' then drop 1 s1 else s1);
          magnitude =
            (if is_hex_start s2 then strtol_digits 16 (drop 2 s2) 0
             else if take 1 s2 = ''0'' then strtol_digits 8 s2 0
             else strtol_digits 10 s2 0)
      in if neg then max (- (2 ^ 63)) (- int magnitude)
         else min (2 ^ 63 - 1) (int magnitude))"

text \<open>
  The second step of \<open>cal_expr\<close>: when the first token is an open and the last a close
  parenthesis, the range loses both (the second read happens only after the first
  test succeeded, as \<open>&&\<close> has it).
\<close>

definition strip_parentheses :: "Token list \<Rightarrow> int \<Rightarrow> int \<Rightarrow> error + (int \<times> int)" where
  "strip_parentheses tokens begin_index end_index =
     (case tk_type tokens begin_index of
        Inl e \<Rightarrow> Inl e
      | Inr tb \<Rightarrow>
          if tb \<noteq> TK_PAR_L then Inr (begin_index, end_index)
          else (case tk_type tokens end_index of
                  Inl e \<Rightarrow> Inl e
                | Inr te \<Rightarrow>
                    if te = TK_PAR_R then Inr (begin_index + 1, end_index - 1)
                    else Inr (begin_index, end_index)))"

text \<open>
  The last \<open>switch\<close> of \<open>cal_expr\<close>: the major operator applied to the two values, on
  \<open>int64_t\<close> (two's complement; comparisons are signed and give 1 or 0; division
  truncates towards zero and traps where the host's does).
\<close>

definition c_div :: "word_t \<Rightarrow> word_t \<Rightarrow> error + word_t" where
  "c_div a b =
     (if b = 0 \<or> (sint a = - (2 ^ 63) \<and> sint b = - 1) then Inl DivTrap
      else Inr (word_of_int (sgn (sint a) * sgn (sint b) * (\<bar>sint a\<bar> div \<bar>sint b\<bar>))))"

definition of_bool64 :: "bool \<Rightarrow> word_t" where
  "of_bool64 b = (if b then 1 else 0)"

definition apply_binary :: "int \<Rightarrow> word_t \<Rightarrow> word_t \<Rightarrow> error + word_t" where
  "apply_binary op_type val_1 val_2 =
     (if op_type = TK_ADD then Inr (val_1 + val_2)
      else if op_type = TK_MINUS then Inr (val_1 - val_2)
      else if op_type = TK_MUL then Inr (val_1 * val_2)
      else if op_type = TK_DIV then c_div val_1 val_2
      else if op_type = TK_BOOL_EQ then Inr (of_bool64 (val_1 = val_2))
      else if op_type = TK_BOOL_GT then Inr (of_bool64 (sint val_2 < sint val_1))
      else if op_type = TK_BOOL_LT then Inr (of_bool64 (sint val_1 < sint val_2))
      else if op_type = TK_BOOL_GE then Inr (of_bool64 (sint val_2 \<le> sint val_1))
      else if op_type = TK_BOOL_LE then Inr (of_bool64 (sint val_1 \<le> sint val_2))
      else Inl AssertFail)"

declare make_token_loop.simps [simp del]
declare check_parentheses_from.simps [simp del]
declare find_major_operator_from.simps [simp del]

lemma find_major_operator_from_range:
  "find_major_operator_from tokens i end_index m n p = Inr r \<Longrightarrow>
     r = m \<or> (i \<le> r \<and> r < end_index)"
proof (induction tokens i end_index m n p rule: find_major_operator_from.induct)
  case (1 tokens i end_index m n p)
  show ?case
  proof (cases "i < end_index")
    case False
    with "1.prems" show ?thesis
      by (simp add: find_major_operator_from.simps [of tokens i])
  next
    case True
    from "1.prems" True obtain t where t: "tk_type tokens i = Inr t"
      by (cases "tk_type tokens i")
         (auto simp: find_major_operator_from.simps [of tokens i])
    from "1.prems" True t "1.IH" show ?thesis
      by (subst (asm) find_major_operator_from.simps)
         (fastforce split: if_splits sum.splits)
  qed
qed

lemma find_major_operator_range:
  "find_major_operator tokens b e = Inr r \<Longrightarrow> r \<noteq> - 1 \<Longrightarrow> b \<le> r \<and> r < e"
  unfolding find_major_operator_def by (drule find_major_operator_from_range) auto

lemma strip_parentheses_shrinks:
  "strip_parentheses tokens b e = Inr (b', e') \<Longrightarrow> b \<le> b' \<and> e' \<le> e"
  by (auto simp: strip_parentheses_def split: sum.splits if_splits)

text \<open>
  \<open>cal_expr\<close>, with the register file (\<open>isa_reg_str2val\<close>: \<open>None\<close> when it reports
  failure) and the memory (\<open>vaddr_read\<close>, called with width 8) of the emulator as
  parameters. The diagnostics it prints are left out. Every path that falls out of
  the \<open>if\<close> chain reaches the final \<open>assert(0)\<close>: an empty range, and a two-token
  range that does not start with a unary operator.
\<close>

function cal_expr ::
  "(string \<Rightarrow> word_t option) \<Rightarrow> (word_t \<Rightarrow> nat \<Rightarrow> word_t) \<Rightarrow> Token list \<Rightarrow> int \<Rightarrow> int
     \<Rightarrow> error + word_t" where
  "cal_expr isa_reg_str2val vaddr_read tokens begin_index end_index =
     (case check_parentheses tokens begin_index end_index of
        Inl e \<Rightarrow> Inl e
      | Inr balanced \<Rightarrow>
          if \<not> balanced then Inr 0
          else
            (case strip_parentheses tokens begin_index end_index of
               Inl e \<Rightarrow> Inl e
             | Inr (b, e) \<Rightarrow>
                 if b > e then Inl AssertFail
                 else if b = e then
                   (case tk_at tokens b of
                      Inl err \<Rightarrow> Inl err
                    | Inr t \<Rightarrow>
                        if type t = TK_INT then Inr (word_of_int (strtol0 (str t)))
                        else if type t = TK_REG then
                          (case isa_reg_str2val (str t) of
                             Some result \<Rightarrow> Inr result
                           | None \<Rightarrow> Inr 0)
                        else Inr 0)
                 else if e - b = 1 then
                   (case tk_type tokens b of
                      Inl err \<Rightarrow> Inl err
                    | Inr t \<Rightarrow>
                        if t = TK_POS then cal_expr isa_reg_str2val vaddr_read tokens (b + 1) e
                        else if t = TK_NEG then
                          (case cal_expr isa_reg_str2val vaddr_read tokens (b + 1) e of
                             Inl err \<Rightarrow> Inl err
                           | Inr v \<Rightarrow> Inr (- v))
                        else if t = TK_DEREF then
                          (case cal_expr isa_reg_str2val vaddr_read tokens (b + 1) e of
                             Inl err \<Rightarrow> Inl err
                           | Inr v \<Rightarrow> Inr (vaddr_read v 8))
                        else Inl AssertFail)
                 else
                   (case find_major_operator tokens b e of
                      Inl err \<Rightarrow> Inl err
                    | Inr major_op_pos \<Rightarrow>
                        if major_op_pos = - 1 then Inl AssertFail
                        else
                          (case cal_expr isa_reg_str2val vaddr_read tokens b (major_op_pos - 1) of
                             Inl err \<Rightarrow> Inl err
                           | Inr val_1 \<Rightarrow>
                               (case cal_expr isa_reg_str2val vaddr_read tokens (major_op_pos + 1) e of
                                  Inl err \<Rightarrow> Inl err
                                | Inr val_2 \<Rightarrow>
                                    (case tk_type tokens major_op_pos of
                                       Inl err \<Rightarrow> Inl err
                                     | Inr op_type \<Rightarrow> apply_binary op_type val_1 val_2))))))"
  by pat_completeness auto
termination
proof (relation "measure (\<lambda>(r, m, tokens, b, e). nat (e + 1 - b))", goal_cases)
  case 1
  show ?case by simp
next
  case (2 r m tokens b e balanced x b' e')
  then show ?case by (auto dest: strip_parentheses_shrinks)
next
  case (3 r m tokens b e balanced x b' e')
  then show ?case by (auto dest: strip_parentheses_shrinks)
next
  case (4 r m tokens b e balanced x b' e')
  then show ?case by (auto dest: strip_parentheses_shrinks)
next
  case (5 r m tokens b e balanced x b' e' major)
  then show ?case
    by (auto dest!: strip_parentheses_shrinks find_major_operator_range)
next
  case (6 r m tokens b e balanced x b' e' major v)
  then show ?case
    by (auto dest!: strip_parentheses_shrinks find_major_operator_range)
qed

declare cal_expr.simps [simp del]

text \<open>
  \<open>expr\<close>. \<open>success\<close> is what \<open>*success\<close> holds when the call starts; the result is the
  returned word and what \<open>*success\<close> holds when the call returns. The function writes
  \<open>*success\<close> only where \<open>make_token\<close> fails.
\<close>

definition expr ::
  "(string \<Rightarrow> word_t option) \<Rightarrow> (word_t \<Rightarrow> nat \<Rightarrow> word_t) \<Rightarrow> Token list \<Rightarrow> string \<Rightarrow> bool
     \<Rightarrow> error + (word_t \<times> bool)" where
  "expr isa_reg_str2val vaddr_read tokens e success =
     (case make_token e tokens of
        Inl err \<Rightarrow> Inl err
      | Inr (lexed, tokens', num_of_token) \<Rightarrow>
          if \<not> lexed then Inr (0, False)
          else
            (case cal_expr isa_reg_str2val vaddr_read tokens' 0 (int num_of_token - 1) of
               Inl err \<Rightarrow> Inl err
             | Inr v \<Rightarrow> Inr (v, success)))"

text \<open>The static buffer as a call of \<open>expr\<close> leaves it.\<close>

definition tokens_after :: "string \<Rightarrow> Token list \<Rightarrow> Token list" where
  "tokens_after e tokens =
     (case make_token e tokens of Inl err \<Rightarrow> tokens | Inr (lexed, tokens', n) \<Rightarrow> tokens')"

section \<open>watchpoint.c: the pool\<close>

text \<open>
  A pointer to a \<open>watchpoint_t\<close>: \<open>NULL\<close>, \<open>&wp_pool[i]\<close> or \<open>&wp_dummy[i]\<close>; and
  \<open>Overwritten bs p\<close>, what a pointer field holds after bytes were copied over it: the
  bytes \<open>bs\<close> (at most 8, the lowest first) in place of the lowest bytes of the pointer
  \<open>p\<close> it held before. The two list heads are set once, by \<open>init_wp_pool\<close>:
  \<open>head = &wp_dummy[0]\<close> and \<open>free_ = &wp_dummy[1]\<close>.
\<close>

datatype wp_ref = Null | Pool int | Dummy int | Overwritten string wp_ref

abbreviation wp_head :: wp_ref where "wp_head \<equiv> Dummy 0"
abbreviation wp_free :: wp_ref where "wp_free \<equiv> Dummy 1"

abbreviation NR_WP :: int where "NR_WP \<equiv> 32"

text \<open>
  The memory of the watchpoints, one map per field of \<open>struct watchpoint\<close> (\<open>id\<close>,
  \<open>next\<close>, \<open>prev\<close>, \<open>last_val\<close>, \<open>expr\<close>, \<open>counter\<close>); \<open>counter\<close> is a C \<open>int\<close>. Of the
  array \<open>expr\<close> the map holds the bytes up to the first NUL (all 100 when the array has
  none).
\<close>

record wp_heap =
  id_of :: "wp_ref \<Rightarrow> int"
  next_of :: "wp_ref \<Rightarrow> wp_ref"
  prev_of :: "wp_ref \<Rightarrow> wp_ref"
  last_val_of :: "wp_ref \<Rightarrow> word_t"
  expr_of :: "wp_ref \<Rightarrow> string"
  counter_of :: "wp_ref \<Rightarrow> 32 word"

text \<open>The static storage as the process starts: every field zero.\<close>

definition zero_heap :: wp_heap where
  "zero_heap =
     \<lparr>id_of = (\<lambda>p. 0), next_of = (\<lambda>p. Null), prev_of = (\<lambda>p. Null),
      last_val_of = (\<lambda>p. 0), expr_of = (\<lambda>p. []), counter_of = (\<lambda>p. 0)\<rparr>"

text \<open>
  \<open>init_wp_pool\<close>: the first loop links every slot to its neighbours in the array
  (slot 0 to the address before the array and slot 31 to the one past it, until the
  four assignments after the loops close the ring through \<open>free_\<close>), the second loop
  numbers the two heads -1 and -2.
\<close>

definition init_pool_slot :: "int \<Rightarrow> wp_heap \<Rightarrow> wp_heap" where
  "init_pool_slot i h =
     h\<lparr>id_of := (id_of h)(Pool i := i),
       next_of := (next_of h)(Pool i := Pool (i + 1)),
       prev_of := (prev_of h)(Pool i := Pool (i - 1))\<rparr>"

definition init_dummy :: "int \<Rightarrow> wp_heap \<Rightarrow> wp_heap" where
  "init_dummy i h = h\<lparr>id_of := (id_of h)(Dummy i := - i - 1)\<rparr>"

definition init_wp_pool :: wp_heap where
  "init_wp_pool =
     (let h1 = fold init_pool_slot [0..NR_WP - 1] zero_heap;
          h2 = fold init_dummy [0..1] h1;
          h3 = h2\<lparr>next_of := (next_of h2)(Pool (NR_WP - 1) := wp_free)\<rparr>;
          h4 = h3\<lparr>prev_of := (prev_of h3)(Pool 0 := wp_free)\<rparr>;
          h5 = h4\<lparr>next_of := (next_of h4)(wp_free := Pool 0)\<rparr>;
          h6 = h5\<lparr>prev_of := (prev_of h5)(wp_free := Pool (NR_WP - 1))\<rparr>;
          h7 = h6\<lparr>next_of := (next_of h6)(wp_head := wp_head)\<rparr>
      in h7\<lparr>prev_of := (prev_of h7)(wp_head := wp_head)\<rparr>)"

text \<open>
  \<open>new_wp\<close>: \<open>assert(0)\<close> when the node after \<open>free_\<close> carries the id -2; otherwise that
  node leaves the free ring and enters the active ring right after \<open>head\<close>, its
  counter reset. The assignments are taken one by one, each reading the memory the
  earlier ones left.
\<close>

definition new_wp :: "wp_heap \<Rightarrow> error + (wp_ref \<times> wp_heap)" where
  "new_wp h =
     (if id_of h (next_of h wp_free) = - 2 then Inl AssertFail
      else
        (let res = next_of h wp_free;
             h1 = h\<lparr>next_of := (next_of h)(wp_free := next_of h res)\<rparr>;
             h2 = h1\<lparr>prev_of := (prev_of h1)(next_of h1 wp_free := wp_free)\<rparr>;
             h3 = h2\<lparr>prev_of := (prev_of h2)(next_of h2 wp_head := res)\<rparr>;
             h4 = h3\<lparr>prev_of := (prev_of h3)(res := wp_head)\<rparr>;
             h5 = h4\<lparr>next_of := (next_of h4)(res := next_of h4 wp_head)\<rparr>;
             h6 = h5\<lparr>next_of := (next_of h5)(wp_head := res)\<rparr>
         in Inr (res, h6\<lparr>counter_of := (counter_of h6)(res := 0)\<rparr>)))"

text \<open>
  \<open>free_wp\<close>: -1 for an index outside the pool; otherwise the slot is unlinked from
  the ring it is in and linked right after \<open>free_\<close>, and the result is 0.
\<close>

definition free_wp :: "int \<Rightarrow> wp_heap \<Rightarrow> int \<times> wp_heap" where
  "free_wp n h =
     (if n < 0 \<or> n \<ge> NR_WP then (- 1, h)
      else
        (let wp = Pool n;
             h1 = h\<lparr>next_of := (next_of h)(prev_of h wp := next_of h wp)\<rparr>;
             h2 = h1\<lparr>prev_of := (prev_of h1)(next_of h1 wp := prev_of h1 wp)\<rparr>;
             h3 = h2\<lparr>prev_of := (prev_of h2)(next_of h2 wp_free := wp)\<rparr>;
             h4 = h3\<lparr>prev_of := (prev_of h3)(wp := wp_free)\<rparr>;
             h5 = h4\<lparr>next_of := (next_of h4)(wp := next_of h4 wp_free)\<rparr>
         in (0, h5\<lparr>next_of := (next_of h5)(wp_free := wp)\<rparr>)))"

text \<open>
  The bytes of a \<open>watchpoint_t\<close>, as the 64-bit little-endian hosts of the emulator lay
  it out (\<open>int\<close> of 4 bytes; pointers and \<open>word_t\<close> of 8, aligned to 8): \<open>id\<close> at offset
  0, four bytes of padding, \<open>next\<close> at 8, \<open>prev\<close> at 16, \<open>last_val\<close> at 24, \<open>expr\<close> at 32,
  \<open>counter\<close> at 132; 136 bytes in all, so that in an array the \<open>id\<close> of an element comes
  right after the \<open>counter\<close> of the element before it.

  \<open>le_word cs\<close> is the number whose bytes, the lowest first, are \<open>cs\<close>; \<open>patch w cs\<close> is
  the word \<open>w\<close> with its lowest bytes replaced by \<open>cs\<close>.
\<close>

fun le_word :: "string \<Rightarrow> 'a::len word" where
  "le_word [] = 0"
| "le_word (c # cs) = of_nat (of_char c) + push_bit 8 (le_word cs)"

definition patch :: "'a::len word \<Rightarrow> string \<Rightarrow> 'a word" where
  "patch w cs = push_bit (8 * length cs) (drop_bit (8 * length cs) w) + le_word cs"

text \<open>
  \<open>chunk off a n bs\<close>: of the bytes \<open>bs\<close>, copied to an element from its offset \<open>off\<close>
  on, those that land in the field of \<open>n\<close> bytes at offset \<open>a\<close>. \<open>store_at_slot q off bs\<close>
  copies \<open>bs\<close> to the element \<open>q\<close> from offset \<open>off\<close> on, up to the end of the element:
  every field that receives bytes has its lowest bytes replaced (the padding is no
  field; the bytes are those of a C string with its NUL, so \<open>expr\<close> is left holding
  the bytes it receives up to the NUL).
\<close>

definition chunk :: "nat \<Rightarrow> nat \<Rightarrow> nat \<Rightarrow> string \<Rightarrow> string" where
  "chunk off a n bs = (if a < off then [] else take n (drop (a - off) bs))"

definition store_at_slot :: "wp_ref \<Rightarrow> nat \<Rightarrow> string \<Rightarrow> wp_heap \<Rightarrow> wp_heap" where
  "store_at_slot q off bs h =
     (let h1 = (if chunk off 0 4 bs = [] then h
                else h\<lparr>id_of := (id_of h)
                       (q := sint (patch (word_of_int (id_of h q) :: 32 word) (chunk off 0 4 bs)))\<rparr>);
          h2 = (if chunk off 8 8 bs = [] then h1
                else h1\<lparr>next_of := (next_of h1)
                        (q := Overwritten (chunk off 8 8 bs) (next_of h1 q))\<rparr>);
          h3 = (if chunk off 16 8 bs = [] then h2
                else h2\<lparr>prev_of := (prev_of h2)
                        (q := Overwritten (chunk off 16 8 bs) (prev_of h2 q))\<rparr>);
          h4 = (if chunk off 24 8 bs = [] then h3
                else h3\<lparr>last_val_of := (last_val_of h3)
                        (q := patch (last_val_of h3 q) (chunk off 24 8 bs))\<rparr>);
          h5 = (if chunk off 32 100 bs = [] then h4
                else h4\<lparr>expr_of := (expr_of h4)
                        (q := takeWhile (\<lambda>c. c \<noteq> CHR 0x00) (chunk off 32 100 bs))\<rparr>)
      in if chunk off 132 4 bs = [] then h5
         else h5\<lparr>counter_of := (counter_of h5)
                 (q := patch (counter_of h5 q) (chunk off 132 4 bs))\<rparr>)"

text \<open>
  The element that follows an element of \<open>wp_pool\<close> or of \<open>wp_dummy\<close> in memory (for
  the last element: the address one past the array). \<open>spill q bs\<close> copies \<open>bs\<close> to the
  element \<open>q\<close> and to the ones after it. Bytes that go past the last element of the
  array go to storage these sources say nothing about: \<open>OutOfBounds\<close>.
\<close>

fun slot_after :: "wp_ref \<Rightarrow> wp_ref option" where
  "slot_after (Pool i) = (if 0 \<le> i \<and> i < NR_WP then Some (Pool (i + 1)) else None)"
| "slot_after (Dummy i) = (if 0 \<le> i \<and> i < 2 then Some (Dummy (i + 1)) else None)"
| "slot_after Null = None"
| "slot_after (Overwritten bs p) = None"

function spill :: "wp_ref \<Rightarrow> string \<Rightarrow> wp_heap \<Rightarrow> error + wp_heap" where
  "spill q bs h =
     (if bs = [] then Inr h
      else case slot_after q of
             None \<Rightarrow> Inl OutOfBounds
           | Some q' \<Rightarrow> spill q' (drop 136 bs) (store_at_slot q 0 bs h))"
  by pat_completeness auto
termination
  by (relation "measure (\<lambda>(q, bs, h). length bs)") auto

declare spill.simps [simp del]

text \<open>
  \<open>strcpy(wp->expr, expr)\<close>: the text (a C string ends at its first NUL) and its NUL
  are copied from the first byte of \<open>expr\<close> on. A text of at most 99 bytes stays in the
  array. A longer one is copied all the same: \<open>strcpy\<close> has no bound, and the bytes
  after the first 100 go on to \<open>counter\<close> and to the elements that follow in the array.
\<close>

definition c_str :: "string \<Rightarrow> string" where
  "c_str s = takeWhile (\<lambda>c. c \<noteq> CHR 0x00) s"

definition strcpy_expr :: "wp_ref \<Rightarrow> string \<Rightarrow> wp_heap \<Rightarrow> error + wp_heap" where
  "strcpy_expr wp s h =
     (if length s < 100 then Inr (h\<lparr>expr_of := (expr_of h)(wp := s)\<rparr>)
      else case slot_after wp of
             None \<Rightarrow> Inl OutOfBounds
           | Some q \<Rightarrow>
               spill q (drop 104 (s @ [CHR 0x00])) (store_at_slot wp 32 (s @ [CHR 0x00]) h))"

text \<open>
  \<open>wp_watch\<close>: a slot from \<open>new_wp\<close>, the text copied into its \<open>expr\<close>, the value
  stored. The result carries the id the function prints.
\<close>

definition wp_watch :: "string \<Rightarrow> word_t \<Rightarrow> wp_heap \<Rightarrow> error + (int \<times> wp_heap)" where
  "wp_watch e res h =
     (case new_wp h of
        Inl err \<Rightarrow> Inl err
      | Inr (wp, h1) \<Rightarrow>
          (case strcpy_expr wp (c_str e) h1 of
             Inl err \<Rightarrow> Inl err
           | Inr h2 \<Rightarrow>
               (let h3 = h2\<lparr>last_val_of := (last_val_of h2)(wp := res)\<rparr>
                in Inr (id_of h3 wp, h3))))"

text \<open>
  \<open>check_wp\<close>: the loop, from the node \<open>cur\<close>, with the result so far, the lines
  printed so far (the arguments of each \<open>printf\<close>: id, text, old value, new value; \<open>%d\<close>
  shows the low 32 bits of the two values), the watchpoints' memory and the token
  buffer of \<open>expr.c\<close>. \<open>uninit\<close> is what the local \<open>success\<close> holds before \<open>expr\<close>
  is called: it is declared without a value. The loop need not end on a memory that
  is not a ring: not returning is \<open>None\<close>.
\<close>

type_synonym wp_change = "int \<times> string \<times> word_t \<times> word_t"

partial_function (option) check_wp_from ::
  "(string \<Rightarrow> word_t option) \<Rightarrow> (word_t \<Rightarrow> nat \<Rightarrow> word_t) \<Rightarrow> bool \<Rightarrow> wp_ref \<Rightarrow> int
     \<Rightarrow> wp_change list \<Rightarrow> wp_heap \<Rightarrow> Token list
     \<Rightarrow> (error + (int \<times> wp_change list \<times> wp_heap \<times> Token list)) option" where
  "check_wp_from isa_reg_str2val vaddr_read uninit cur res printed h tokens =
     (if id_of h (next_of h cur) = - 1 then Some (Inr (res, printed, h, tokens))
      else
        (let cur1 = next_of h cur in
         if counter_of h cur1 = 0 then
           check_wp_from isa_reg_str2val vaddr_read uninit cur1 res printed
             (h\<lparr>counter_of := (counter_of h)(cur1 := counter_of h cur1 + 1)\<rparr>) tokens
         else
           (let h1 = h\<lparr>counter_of := (counter_of h)(cur1 := counter_of h cur1 + 1)\<rparr> in
            case expr isa_reg_str2val vaddr_read tokens (expr_of h1 cur1) uninit of
              Inl err \<Rightarrow> Some (Inl err)
            | Inr (val, success) \<Rightarrow>
                if \<not> success then Some (Inl AssertFail)
                else
                  check_wp_from isa_reg_str2val vaddr_read uninit cur1
                    (if val \<noteq> last_val_of h1 cur1 then 1 else res)
                    (if val \<noteq> last_val_of h1 cur1
                     then printed @ [(id_of h1 cur1, expr_of h1 cur1, last_val_of h1 cur1, val)]
                     else printed)
                    (h1\<lparr>last_val_of := (last_val_of h1)(cur1 := val)\<rparr>)
                    (tokens_after (expr_of h1 cur1) tokens))))"

declare check_wp_from.simps [code]

definition check_wp ::
  "(string \<Rightarrow> word_t option) \<Rightarrow> (word_t \<Rightarrow> nat \<Rightarrow> word_t) \<Rightarrow> bool \<Rightarrow> wp_heap \<Rightarrow> Token list
     \<Rightarrow> (error + (int \<times> wp_change list \<times> wp_heap \<times> Token list)) option" where
  "check_wp isa_reg_str2val vaddr_read uninit h tokens =
     check_wp_from isa_reg_str2val vaddr_read uninit wp_head 0 [] h tokens"

text \<open>
  \<open>print_wp\<close>: from \<open>head\<close> along the \<open>prev\<close> pointers until a node with id -1; the
  result is the lines printed after the header (id, text, value).
\<close>

partial_function (option) print_wp_from ::
  "wp_heap \<Rightarrow> wp_ref \<Rightarrow> (int \<times> string \<times> word_t) list \<Rightarrow> (int \<times> string \<times> word_t) list option" where
  "print_wp_from h cur printed =
     (if id_of h (prev_of h cur) = - 1 then Some printed
      else
        (let cur1 = prev_of h cur
         in print_wp_from h cur1 (printed @ [(id_of h cur1, expr_of h cur1, last_val_of h cur1)])))"

declare print_wp_from.simps [code]

definition print_wp :: "wp_heap \<Rightarrow> (int \<times> string \<times> word_t) list option" where
  "print_wp h = print_wp_from h wp_head []"

section \<open>Definitions for the statements: the specification's words, the rings, the runs\<close>


text \<open>
  The selection rule in the specification's words: the candidates of a range are its
  tokens at parenthesis depth 0 (counted from the start of the range) that are binary
  operators, with priority 2 for \<open>*\<close> and \<open>/\<close>, 1 for \<open>+\<close> and \<open>-\<close>, 0 for the
  comparisons; the major operator is the rightmost candidate of the lowest priority.
\<close>

definition binary_priority :: "int \<Rightarrow> int option" where
  "binary_priority t =
     (if t = TK_MUL \<or> t = TK_DIV then Some 2
      else if t = TK_ADD \<or> t = TK_MINUS then Some 1
      else if t = TK_BOOL_EQ \<or> t = TK_BOOL_LT \<or> t = TK_BOOL_GT \<or> t = TK_BOOL_LE
              \<or> t = TK_BOOL_GE then Some 0
      else None)"

definition type_at :: "Token list \<Rightarrow> int \<Rightarrow> int" where
  "type_at tokens i = (case tk_type tokens i of Inr t \<Rightarrow> t | Inl e \<Rightarrow> 0)"

definition paren_step :: "int \<Rightarrow> int" where
  "paren_step t = (if t = TK_PAR_L then 1 else if t = TK_PAR_R then - 1 else 0)"

definition paren_depth :: "Token list \<Rightarrow> int \<Rightarrow> int \<Rightarrow> int" where
  "paren_depth tokens b i = (\<Sum>j\<leftarrow>[b..i - 1]. paren_step (type_at tokens j))"

definition depth0_binary :: "Token list \<Rightarrow> int \<Rightarrow> int \<Rightarrow> int list" where
  "depth0_binary tokens b e =
     [i \<leftarrow> [b..e]. paren_depth tokens b i = 0 \<and> binary_priority (type_at tokens i) \<noteq> None]"

definition priority_at :: "Token list \<Rightarrow> int \<Rightarrow> int" where
  "priority_at tokens i = (case binary_priority (type_at tokens i) of Some q \<Rightarrow> q | None \<Rightarrow> 3)"

definition rightmost_lowest :: "Token list \<Rightarrow> int \<Rightarrow> int \<Rightarrow> int \<Rightarrow> bool" where
  "rightmost_lowest tokens b e p =
     (p \<in> set (depth0_binary tokens b e)
      \<and> (\<forall>i \<in> set (depth0_binary tokens b e).
            priority_at tokens p \<le> priority_at tokens i
            \<and> (priority_at tokens i = priority_at tokens p \<longrightarrow> i \<le> p)))"

text \<open>
  What the scan of \<open>find_major_operator\<close> has established when it has looked at the
  tokens \<open>b\<close> to \<open>e\<close>, with the candidate \<open>m\<close> and the lowest priority \<open>q\<close> so far.
\<close>

definition scan_inv :: "Token list \<Rightarrow> int \<Rightarrow> int \<Rightarrow> int \<Rightarrow> int \<Rightarrow> bool" where
  "scan_inv tokens b e m q =
     ((m = - 1 \<and> q = 2 \<and> depth0_binary tokens b e = [])
      \<or> (rightmost_lowest tokens b e m \<and> priority_at tokens m = q \<and> q \<le> 2))"

text \<open>
  \<open>dpath nx pv a xs b\<close>: following \<open>nx\<close> from \<open>a\<close> leads through exactly the nodes \<open>xs\<close>
  to \<open>b\<close>, and \<open>pv\<close> leads back the same way. A ring with head \<open>r\<close> and nodes \<open>xs\<close> is
  such a path from \<open>r\<close> to \<open>r\<close>.
\<close>

fun dpath :: "('a \<Rightarrow> 'a) \<Rightarrow> ('a \<Rightarrow> 'a) \<Rightarrow> 'a \<Rightarrow> 'a list \<Rightarrow> 'a \<Rightarrow> bool" where
  "dpath nx pv a [] b = (nx a = b \<and> pv b = a)"
| "dpath nx pv a (x # xs) b = (nx a = x \<and> pv x = a \<and> dpath nx pv x xs b)"

definition ring :: "wp_heap \<Rightarrow> wp_ref \<Rightarrow> wp_ref list \<Rightarrow> bool" where
  "ring h r xs = dpath (next_of h) (prev_of h) r xs r"

text \<open>
  The two groups of assignments that \<open>new_wp\<close> and \<open>free_wp\<close> are made of: taking a
  node out of its ring, and putting a node right after a head.
\<close>

definition unlink :: "wp_ref \<Rightarrow> wp_heap \<Rightarrow> wp_heap" where
  "unlink w h =
     (let h1 = h\<lparr>next_of := (next_of h)(prev_of h w := next_of h w)\<rparr>
      in h1\<lparr>prev_of := (prev_of h1)(next_of h1 w := prev_of h1 w)\<rparr>)"

definition link_after :: "wp_ref \<Rightarrow> wp_ref \<Rightarrow> wp_heap \<Rightarrow> wp_heap" where
  "link_after r w h =
     (let h3 = h\<lparr>prev_of := (prev_of h)(next_of h r := w)\<rparr>;
          h4 = h3\<lparr>prev_of := (prev_of h3)(w := r)\<rparr>;
          h5 = h4\<lparr>next_of := (next_of h4)(w := next_of h4 r)\<rparr>
      in h5\<lparr>next_of := (next_of h5)(r := w)\<rparr>)"

text \<open>
  \<open>wp_lists h fl al\<close>: in the memory \<open>h\<close> the ring of \<open>free_\<close> holds the nodes \<open>fl\<close>, the
  ring of \<open>head\<close> holds the nodes \<open>al\<close>, no slot is in both, every slot of the pool is in
  one of them, and every node carries its id (slot \<open>i\<close> the id \<open>i\<close>, the heads -1 and
  -2).
\<close>

definition pool_nodes :: "wp_ref list" where
  "pool_nodes = map Pool [0..NR_WP - 1]"

definition wp_ids :: "wp_heap \<Rightarrow> bool" where
  "wp_ids h =
     (id_of h wp_head = - 1 \<and> id_of h wp_free = - 2
      \<and> (\<forall>i \<in> set [0..NR_WP - 1]. id_of h (Pool i) = i))"

definition wp_lists :: "wp_heap \<Rightarrow> wp_ref list \<Rightarrow> wp_ref list \<Rightarrow> bool" where
  "wp_lists h fl al =
     (ring h wp_free fl \<and> ring h wp_head al \<and> distinct (fl @ al)
      \<and> set (fl @ al) = set pool_nodes \<and> wp_ids h)"

text \<open>
  The nodes of a ring, read off the memory: \<open>walk\<close> follows the \<open>next\<close> pointers from
  a head until it is back at the head, for at most as many steps as there are slots
  (and one more for the head). \<open>wp_inv\<close> is the invariant of the pool: the two walks end,
  and the lists they give are the two rings, disjoint, and together all 32 slots.
\<close>

fun walk :: "(wp_ref \<Rightarrow> wp_ref) \<Rightarrow> nat \<Rightarrow> wp_ref \<Rightarrow> wp_ref \<Rightarrow> wp_ref list option" where
  "walk nx 0 a stop = None"
| "walk nx (Suc k) a stop =
     (if nx a = stop then Some [] else map_option ((#) (nx a)) (walk nx k (nx a) stop))"

definition free_list :: "wp_heap \<Rightarrow> wp_ref list option" where
  "free_list h = walk (next_of h) (nat NR_WP + 1) wp_free wp_free"

definition active_list :: "wp_heap \<Rightarrow> wp_ref list option" where
  "active_list h = walk (next_of h) (nat NR_WP + 1) wp_head wp_head"

definition wp_inv :: "wp_heap \<Rightarrow> bool" where
  "wp_inv h =
     (case free_list h of
        None \<Rightarrow> False
      | Some fl \<Rightarrow>
          (case active_list h of
             None \<Rightarrow> False
           | Some al \<Rightarrow> wp_lists h fl al))"

text \<open>
  The memories the pool can be in: the one \<open>init_wp_pool\<close> leaves, and any that a call
  of \<open>new_wp\<close>, \<open>wp_watch\<close> (with any text) or \<open>free_wp\<close> that returns leaves from one
  of them.
\<close>

inductive wp_reachable :: "wp_heap \<Rightarrow> bool" where
  init: "wp_reachable init_wp_pool"
| new: "wp_reachable h \<Longrightarrow> new_wp h = Inr (p, h') \<Longrightarrow> wp_reachable h'"
| watch: "wp_reachable h \<Longrightarrow> wp_watch e v h = Inr (i, h') \<Longrightarrow> wp_reachable h'"
| free: "wp_reachable h \<Longrightarrow> wp_reachable (snd (free_wp n h))"

text \<open>
  An expression of 127 bytes: four numbers of 31 digits (thirty zeros and a one),
  joined by three plus signs.
\<close>

definition sum_of_4 :: string where
  "sum_of_4 =
     concat (replicate 3 (replicate 30 CHR ''0'' @ ''1+'')) @ replicate 30 CHR ''0'' @ ''1''"

text \<open>
  A run of \<open>wp_watch\<close> calls, one per text and value, with the ids they print; it stops
  at the first call that does not return.
\<close>

fun wp_watch_all :: "(string \<times> word_t) list \<Rightarrow> wp_heap \<Rightarrow> error + (int list \<times> wp_heap)" where
  "wp_watch_all [] h = Inr ([], h)"
| "wp_watch_all ((e, v) # es) h =
     (case wp_watch e v h of
        Inl err \<Rightarrow> Inl err
      | Inr (i, h1) \<Rightarrow>
          (case wp_watch_all es h1 of
             Inl err \<Rightarrow> Inl err
           | Inr (ids, h2) \<Rightarrow> Inr (i # ids, h2)))"

text \<open>The line \<open>print_wp\<close> prints for a node: its id, its text, its stored value.\<close>

definition line_of :: "wp_heap \<Rightarrow> wp_ref \<Rightarrow> int \<times> string \<times> word_t" where
  "line_of h p = (id_of h p, expr_of h p, last_val_of h p)"

text \<open>
  One turn of the loop of \<open>check_wp\<close> for the node \<open>p\<close>, on the result so far, the lines
  printed so far, the memory and the token buffer; and the turns for a list of nodes,
  one after the other, up to the first one that does not return.
\<close>

type_synonym check_state = "int \<times> wp_change list \<times> wp_heap \<times> Token list"

definition check_node ::
  "(string \<Rightarrow> word_t option) \<Rightarrow> (word_t \<Rightarrow> nat \<Rightarrow> word_t) \<Rightarrow> bool \<Rightarrow> wp_ref \<Rightarrow> check_state
     \<Rightarrow> error + check_state" where
  "check_node R M u p st =
     (case st of (res, printed, h, tokens) \<Rightarrow>
        if counter_of h p = 0 then
          Inr (res, printed, h\<lparr>counter_of := (counter_of h)(p := counter_of h p + 1)\<rparr>, tokens)
        else
          (let h1 = h\<lparr>counter_of := (counter_of h)(p := counter_of h p + 1)\<rparr> in
           case expr R M tokens (expr_of h1 p) u of
             Inl err \<Rightarrow> Inl err
           | Inr (val, success) \<Rightarrow>
               if \<not> success then Inl AssertFail
               else
                 Inr (if val \<noteq> last_val_of h1 p then 1 else res,
                      if val \<noteq> last_val_of h1 p
                      then printed @ [(id_of h1 p, expr_of h1 p, last_val_of h1 p, val)]
                      else printed,
                      h1\<lparr>last_val_of := (last_val_of h1)(p := val)\<rparr>,
                      tokens_after (expr_of h1 p) tokens)))"

fun check_nodes ::
  "(string \<Rightarrow> word_t option) \<Rightarrow> (word_t \<Rightarrow> nat \<Rightarrow> word_t) \<Rightarrow> bool \<Rightarrow> wp_ref list \<Rightarrow> check_state
     \<Rightarrow> error + check_state" where
  "check_nodes R M u [] st = Inr st"
| "check_nodes R M u (p # ps) st =
     (case check_node R M u p st of Inl err \<Rightarrow> Inl err | Inr st' \<Rightarrow> check_nodes R M u ps st')"

text \<open>
  Two token buffers agree on their first \<open>n\<close> entries: they have the same size, and each
  of these entries has the same kind in both and, where the kind is one that carries
  text (an integer, a register), the same text.
\<close>

definition agree :: "nat \<Rightarrow> Token list \<Rightarrow> Token list \<Rightarrow> bool" where
  "agree n t t' =
     (length t = length t'
      \<and> (\<forall>i<n. type (t ! i) = type (t' ! i)
                \<and> (type (t ! i) = TK_INT \<or> type (t ! i) = TK_REG \<longrightarrow> str (t ! i) = str (t' ! i))))"

section \<open>The lexer resolves the ambiguous characters\<close>





section \<open>The selection of the major operator\<close>

lemma paren_depth_start: "paren_depth tokens b b = 0"
  by (simp add: paren_depth_def)

lemma paren_depth_step:
  "b \<le> i \<Longrightarrow> paren_depth tokens b (i + 1) = paren_depth tokens b i + paren_step (type_at tokens i)"
  by (simp add: paren_depth_def upto_rec2 [of b i])

lemma depth0_binary_bound: "j \<in> set (depth0_binary tokens b e) \<Longrightarrow> b \<le> j \<and> j \<le> e"
  by (simp add: depth0_binary_def)

lemma get_priority_cases:
  "get_priority t = Inr q \<Longrightarrow>
     (q = 3 \<and> binary_priority t = None) \<or> (binary_priority t = Some q \<and> q \<le> 2)"
  by (auto simp: get_priority_def binary_priority_def split: if_splits)

lemma depth0_binary_skip:
  "b \<le> i \<Longrightarrow> \<not> (paren_depth tokens b i = 0 \<and> binary_priority (type_at tokens i) \<noteq> None) \<Longrightarrow>
   depth0_binary tokens b i = depth0_binary tokens b (i - 1)"
  by (simp add: depth0_binary_def upto_rec2 [of b i])

lemma depth0_binary_snoc:
  "b \<le> i \<Longrightarrow> paren_depth tokens b i = 0 \<Longrightarrow> binary_priority (type_at tokens i) = Some p \<Longrightarrow>
   depth0_binary tokens b i = depth0_binary tokens b (i - 1) @ [i]"
  by (simp add: depth0_binary_def upto_rec2 [of b i])

lemma scan_inv_skip:
  "b \<le> i \<Longrightarrow> scan_inv tokens b (i - 1) m q \<Longrightarrow>
   \<not> (paren_depth tokens b i = 0 \<and> binary_priority (type_at tokens i) \<noteq> None) \<Longrightarrow>
   scan_inv tokens b i m q"
  using depth0_binary_skip [of b i tokens] by (simp add: scan_inv_def rightmost_lowest_def)

lemma scan_inv_take:
  assumes "b \<le> i" "scan_inv tokens b (i - 1) m q" "paren_depth tokens b i = 0"
      and "binary_priority (type_at tokens i) = Some p" "p \<le> 2" "p \<le> q"
  shows "scan_inv tokens b i i p"
proof -
  have pi: "priority_at tokens i = p" using assms(4) by (simp add: priority_at_def)
  have old: "\<forall>j \<in> set (depth0_binary tokens b (i - 1)). j \<le> i \<and> p \<le> priority_at tokens j"
  proof
    fix j assume j: "j \<in> set (depth0_binary tokens b (i - 1))"
    then have "j \<le> i" by (auto dest: depth0_binary_bound)
    moreover from j assms(2,6) have "p \<le> priority_at tokens j"
      by (auto simp: scan_inv_def rightmost_lowest_def)
    ultimately show "j \<le> i \<and> p \<le> priority_at tokens j" by simp
  qed
  with assms pi show ?thesis
    by (auto simp: scan_inv_def rightmost_lowest_def depth0_binary_snoc [where p = p])
qed

lemma scan_inv_keep:
  assumes "b \<le> i" "scan_inv tokens b (i - 1) m q" "paren_depth tokens b i = 0"
      and "binary_priority (type_at tokens i) = Some p" "p \<le> 2" "\<not> p \<le> q"
  shows "scan_inv tokens b i m q"
proof -
  have pi: "priority_at tokens i = p" using assms(4) by (simp add: priority_at_def)
  from assms(2,5,6) have "rightmost_lowest tokens b (i - 1) m \<and> priority_at tokens m = q \<and> q \<le> 2"
    by (auto simp: scan_inv_def)
  with assms pi show ?thesis
    by (auto simp: scan_inv_def rightmost_lowest_def depth0_binary_snoc [where p = p])
qed

lemma find_major_operator_from_spec:
  "find_major_operator_from tokens i e m n q = Inr r \<Longrightarrow> b \<le> i \<Longrightarrow> i \<le> e \<Longrightarrow>
   n = paren_depth tokens b i \<Longrightarrow> scan_inv tokens b (i - 1) m q \<Longrightarrow>
   \<exists>q'. scan_inv tokens b (e - 1) r q'"
proof (induction tokens i e m n q rule: find_major_operator_from.induct)
  case (1 tokens i e m n q)
  show ?case
  proof (cases "i < e")
    case False
    with "1.prems" have "r = m" "i = e"
      by (simp_all add: find_major_operator_from.simps [of tokens i])
    with "1.prems" show ?thesis by blast
  next
    case True
    from "1.prems"(1) True obtain t where t: "tk_type tokens i = Inr t"
      by (cases "tk_type tokens i") (auto simp: find_major_operator_from.simps [of tokens i])
    then have ta: "type_at tokens i = t" by (simp add: type_at_def)
    have step: "paren_depth tokens b (i + 1) = n + paren_step t"
      using paren_depth_step [OF "1.prems"(2), of tokens] ta "1.prems"(4) by simp
    have d: "paren_depth tokens b i = n" using "1.prems"(4) by simp
    note run = "1.prems"(1) [unfolded find_major_operator_from.simps [of tokens i e m n q]]
    have le: "b \<le> i + 1" "i + 1 \<le> e" using "1.prems"(2) True by simp_all
    have prev: "scan_inv tokens b (i + 1 - 1 - 1) m q" using "1.prems"(5) by simp
    consider (int) "t = TK_INT" | (l) "t = TK_PAR_L" | (r) "t = TK_PAR_R"
      | (deep) "t \<noteq> TK_INT" "t \<noteq> TK_PAR_L" "t \<noteq> TK_PAR_R" "0 < n"
      | (zero) "t \<noteq> TK_INT" "t \<noteq> TK_PAR_L" "t \<noteq> TK_PAR_R" "n = 0"
      | (neg) "t \<noteq> TK_INT" "t \<noteq> TK_PAR_L" "t \<noteq> TK_PAR_R" "n < 0"
      by linarith
    then show ?thesis
    proof cases
      case int
      from run True t int have rec: "find_major_operator_from tokens (i + 1) e m n q = Inr r"
        by simp
      have bp: "binary_priority (type_at tokens i) = None"
        using ta int by (simp add: binary_priority_def)
      have inv: "scan_inv tokens b (i + 1 - 1) m q"
        using scan_inv_skip [OF "1.prems"(2,5)] bp by simp
      have n: "n = paren_depth tokens b (i + 1)" using step int by (simp add: paren_step_def)
      from "1.IH"(1) [OF True t int rec le n inv] show ?thesis .
    next
      case l
      from run True t l have rec: "find_major_operator_from tokens (i + 1) e m (n + 1) q = Inr r"
        by simp
      have bp: "binary_priority (type_at tokens i) = None"
        using ta l by (simp add: binary_priority_def)
      have inv: "scan_inv tokens b (i + 1 - 1) m q"
        using scan_inv_skip [OF "1.prems"(2,5)] bp by simp
      have n: "n + 1 = paren_depth tokens b (i + 1)" using step l by (simp add: paren_step_def)
      have ne: "t \<noteq> TK_INT" using l by simp
      from "1.IH"(2) [OF True t ne l rec le n inv] show ?thesis .
    next
      case r
      from run True t r have rec: "find_major_operator_from tokens (i + 1) e m (n - 1) q = Inr r"
        by simp
      have bp: "binary_priority (type_at tokens i) = None"
        using ta r by (simp add: binary_priority_def)
      have inv: "scan_inv tokens b (i + 1 - 1) m q"
        using scan_inv_skip [OF "1.prems"(2,5)] bp by simp
      have n: "n - 1 = paren_depth tokens b (i + 1)" using step r by (simp add: paren_step_def)
      have ne: "t \<noteq> TK_INT" "t \<noteq> TK_PAR_L" using r by simp_all
      from "1.IH"(3) [OF True t ne r rec le n inv] show ?thesis .
    next
      case deep
      from run True t deep have rec: "find_major_operator_from tokens (i + 1) e m n q = Inr r"
        by simp
      have inv: "scan_inv tokens b (i + 1 - 1) m q"
        using scan_inv_skip [OF "1.prems"(2,5)] d deep(4) by simp
      have n: "n = paren_depth tokens b (i + 1)" using step deep by (simp add: paren_step_def)
      from "1.IH"(4) [OF True t deep rec le n inv] show ?thesis .
    next
      case neg
      with run True t show ?thesis by simp
    next
      case zero
      from run True t zero obtain p where p: "get_priority t = Inr p"
        by (cases "get_priority t") auto
      have d0: "paren_depth tokens b i = 0" using zero d by simp
      have n: "n = paren_depth tokens b (i + 1)" using step zero by (simp add: paren_step_def)
      from "1.prems"(5) have q2: "q \<le> 2" by (auto simp: scan_inv_def)
      have n0: "\<not> 0 < n" "\<not> n < 0" using zero by simp_all
      show ?thesis
      proof (cases "p \<le> q")
        case True
        from run \<open>i < e\<close> t zero p True
        have rec: "find_major_operator_from tokens (i + 1) e i n p = Inr r" by simp
        from get_priority_cases [OF p] q2 True
        have bp: "binary_priority (type_at tokens i) = Some p" "p \<le> 2" using ta by auto
        have inv: "scan_inv tokens b (i + 1 - 1) i p"
          using scan_inv_take [OF "1.prems"(2,5) d0 bp True] by simp
        from "1.IH"(5) [OF \<open>i < e\<close> t zero(1-3) n0 p True rec le n inv] show ?thesis .
      next
        case False
        from run \<open>i < e\<close> t zero p False
        have rec: "find_major_operator_from tokens (i + 1) e m n q = Inr r" by simp
        have "scan_inv tokens b i m q"
        proof (cases "binary_priority t")
          case None
          with scan_inv_skip [OF "1.prems"(2,5)] ta show ?thesis by simp
        next
          case (Some p')
          with get_priority_cases [OF p] have "p' = p" "p \<le> 2" by auto
          with scan_inv_keep [OF "1.prems"(2,5) d0 _ _ False] Some ta show ?thesis by simp
        qed
        then have inv: "scan_inv tokens b (i + 1 - 1) m q" by simp
        from "1.IH"(6) [OF \<open>i < e\<close> t zero(1-3) n0 p False rec le n inv] show ?thesis .
      qed
    qed
  qed
qed

lemma find_major_operator_spec:
  assumes "find_major_operator tokens b e = Inr r" "b \<le> e"
  shows "(r = - 1 \<and> depth0_binary tokens b (e - 1) = []) \<or> rightmost_lowest tokens b (e - 1) r"
proof -
  have "scan_inv tokens b (b - 1) (- 1) 2"
    by (simp add: scan_inv_def depth0_binary_def)
  from find_major_operator_from_spec [OF assms(1) [unfolded find_major_operator_def] _ assms(2) _ this]
  show ?thesis by (auto simp: scan_inv_def paren_depth_start)
qed

text \<open>
  The scan skips integers, not registers: a register at depth 0 before the last token
  of the range sends it to \<open>get_priority\<close>, which has no priority for an operand.
\<close>

lemma get_priority_error: "get_priority t = Inl err \<Longrightarrow> err = AssertFail"
  by (auto simp: get_priority_def split: if_splits)

lemma get_priority_register: "get_priority TK_REG = Inl AssertFail"
  by (simp add: get_priority_def)

lemma paren_depth_next:
  "i0 < i \<Longrightarrow>
   paren_depth tokens i0 i = paren_step (type_at tokens i0) + paren_depth tokens (i0 + 1) i"
  by (simp add: paren_depth_def upto_rec1 [of i0 "i - 1"])

lemma find_major_operator_from_register:
  "i0 \<le> i \<Longrightarrow> i < e \<Longrightarrow> 0 \<le> i0 \<Longrightarrow> e \<le> int (length tokens) \<Longrightarrow>
   tk_type tokens i = Inr TK_REG \<Longrightarrow> c + paren_depth tokens i0 i = 0 \<Longrightarrow>
   find_major_operator_from tokens i0 e m c q = Inl AssertFail"
proof (induction tokens i0 e m c q rule: find_major_operator_from.induct)
  case (1 tokens i0 e m c q)
  from "1.prems" have lt: "i0 < e" by simp
  from "1.prems" obtain t where t: "tk_type tokens i0 = Inr t"
    by (auto simp: tk_type_def tk_at_def)
  then have ta: "type_at tokens i0 = t" by (simp add: type_at_def)
  show ?case
  proof (cases "i0 = i")
    case True
    with "1.prems" t have "t = TK_REG" "c = 0" by (simp_all add: paren_depth_start)
    with lt t show ?thesis
      by (subst find_major_operator_from.simps) (simp add: get_priority_register)
  next
    case False
    with "1.prems" have less: "i0 < i" by simp
    note pd = paren_depth_next [OF less, of tokens]
    note ih = "1.IH" [OF lt t]
    have step: "c + paren_step t + paren_depth tokens (i0 + 1) i = 0"
      using "1.prems"(6) pd ta by simp
    have b: "i0 + 1 \<le> i" "0 \<le> i0 + 1" using less "1.prems" by simp_all
    show ?thesis
    proof (cases "t = TK_INT")
      case True
      then have "paren_step t = 0" by (simp add: paren_step_def)
      with ih(1) [OF True b(1) "1.prems"(2) b(2) "1.prems"(4,5)] step lt t True
      show ?thesis by (subst find_major_operator_from.simps) simp
    next
      case nint: False
      show ?thesis
      proof (cases "t = TK_PAR_L")
        case True
        then have "paren_step t = 1" by (simp add: paren_step_def)
        with ih(2) [OF nint True b(1) "1.prems"(2) b(2) "1.prems"(4,5)] step lt t nint True
        show ?thesis by (subst find_major_operator_from.simps) simp
      next
        case nl: False
        show ?thesis
        proof (cases "t = TK_PAR_R")
          case True
          then have "paren_step t = - 1" by (simp add: paren_step_def)
          with ih(3) [OF nint nl True b(1) "1.prems"(2) b(2) "1.prems"(4,5)] step lt t nint nl True
          show ?thesis by (subst find_major_operator_from.simps) simp
        next
          case nr: False
          with nl have ps: "paren_step t = 0" by (simp add: paren_step_def)
          show ?thesis
          proof (cases "0 < c")
            case True
            with ih(4) [OF nint nl nr True b(1) "1.prems"(2) b(2) "1.prems"(4,5)]
                 step ps lt t nint nl nr
            show ?thesis by (subst find_major_operator_from.simps) simp
          next
            case npos: False
            show ?thesis
            proof (cases "c < 0")
              case True
              with lt t nint nl nr npos show ?thesis
                by (subst find_major_operator_from.simps) simp
            next
              case nneg: False
              show ?thesis
              proof (cases "get_priority t")
                case (Inl err)
                with get_priority_error [OF Inl] lt t nint nl nr npos nneg show ?thesis
                  by (subst find_major_operator_from.simps) simp
              next
                case (Inr pr)
                show ?thesis
                proof (cases "pr \<le> q")
                  case True
                  with ih(5) [OF nint nl nr npos nneg Inr True b(1) "1.prems"(2) b(2) "1.prems"(4,5)]
                       step ps lt t nint nl nr npos nneg Inr
                  show ?thesis by (subst find_major_operator_from.simps) simp
                next
                  case False
                  with ih(6) [OF nint nl nr npos nneg Inr False b(1) "1.prems"(2) b(2) "1.prems"(4,5)]
                       step ps lt t nint nl nr npos nneg Inr
                  show ?thesis by (subst find_major_operator_from.simps) simp
                qed
              qed
            qed
          qed
        qed
      qed
    qed
  qed
qed

section \<open>The two rings of the pool\<close>

lemma dpath_append:
  "dpath nx pv a (xs @ y # ys) b = (dpath nx pv a xs y \<and> dpath nx pv y ys b)"
  by (induction xs arbitrary: a) auto

lemma dpath_snoc:
  "dpath nx pv a (xs @ [y]) b = (dpath nx pv a xs y \<and> nx y = b \<and> pv b = y)"
  by (simp add: dpath_append)

lemma dpath_upd_next:
  "u \<notin> set (a # xs) \<Longrightarrow> dpath (nx(u := v)) pv a xs b = dpath nx pv a xs b"
  by (induction xs arbitrary: a) auto

lemma dpath_upd_prev:
  "u \<notin> set (xs @ [b]) \<Longrightarrow> dpath nx (pv(u := v)) a xs b = dpath nx pv a xs b"
  by (induction xs arbitrary: a) auto

lemma dpath_next_hd: "dpath nx pv a xs b \<Longrightarrow> nx a = hd (xs @ [b])"
  by (cases xs) auto

lemma dpath_prev_last: "dpath nx pv a xs b \<Longrightarrow> pv b = last (a # xs)"
  by (induction xs arbitrary: a) auto

lemma dpath_unlink:
  assumes "dpath nx pv a (pre @ w # post) b" "distinct (pre @ w # post)"
      and "a \<notin> set (pre @ w # post)" "b \<notin> set (pre @ w # post)"
  shows "dpath (nx(pv w := nx w)) (pv(nx w := pv w)) a (pre @ post) b"
proof -
  from assms(1) have l: "dpath nx pv a pre w" and r: "dpath nx pv w post b"
    by (simp_all add: dpath_append)
  show ?thesis
  proof (cases pre rule: rev_cases)
    case Nil
    note pre = Nil
    show ?thesis
    proof (cases post)
      case Nil
      with pre l r show ?thesis by simp
    next
      case (Cons c post')
      with pre l r assms(2-4) show ?thesis
        by (auto simp: dpath_upd_next dpath_upd_prev)
    qed
  next
    case (snoc pre' p)
    note pre = snoc
    show ?thesis
    proof (cases post)
      case Nil
      with pre l r assms(2-4) show ?thesis
        by (auto simp: dpath_snoc dpath_upd_next dpath_upd_prev)
    next
      case (Cons c post')
      with pre l r assms(2-4) show ?thesis
        by (auto simp: dpath_snoc dpath_append dpath_upd_next dpath_upd_prev)
    qed
  qed
qed

lemma dpath_link:
  assumes "dpath nx pv r xs r" "distinct (r # xs)" "w \<notin> set (r # xs)"
  shows "dpath ((nx(w := nx r))(r := w)) ((pv(nx r := w))(w := r)) r (w # xs) r"
proof (cases xs)
  case Nil
  with assms show ?thesis by auto
next
  case (Cons c xs')
  with assms show ?thesis by (auto simp: dpath_upd_next dpath_upd_prev)
qed

lemma dpath_frame:
  "(\<forall>x \<in> set (a # xs). nx' x = nx x) \<Longrightarrow> (\<forall>x \<in> set (xs @ [b]). pv' x = pv x) \<Longrightarrow>
   dpath nx' pv' a xs b = dpath nx pv a xs b"
  by (induction xs arbitrary: a) auto

lemma dpath_next_in: "dpath nx pv a xs b \<Longrightarrow> w \<in> set (a # xs) \<Longrightarrow> nx w \<in> set (xs @ [b])"
  by (induction xs arbitrary: a) auto

lemma dpath_prev_in: "dpath nx pv a xs b \<Longrightarrow> w \<in> set (xs @ [b]) \<Longrightarrow> pv w \<in> set (a # xs)"
  by (induction xs arbitrary: a) auto

lemma unlink_fields:
  assumes "prev_of h w \<noteq> w"
  shows "next_of (unlink w h) = (next_of h)(prev_of h w := next_of h w)"
    and "prev_of (unlink w h) = (prev_of h)(next_of h w := prev_of h w)"
  using assms by (simp_all add: unlink_def Let_def)

lemma unlink_frame [simp]:
  "id_of (unlink w h) = id_of h" "last_val_of (unlink w h) = last_val_of h"
  "expr_of (unlink w h) = expr_of h" "counter_of (unlink w h) = counter_of h"
  by (simp_all add: unlink_def Let_def)

lemma link_after_fields:
  assumes "w \<noteq> r"
  shows "next_of (link_after r w h) = ((next_of h)(w := next_of h r))(r := w)"
    and "prev_of (link_after r w h) = ((prev_of h)(next_of h r := w))(w := r)"
  using assms by (simp_all add: link_after_def Let_def)

lemma link_after_frame [simp]:
  "id_of (link_after r w h) = id_of h" "last_val_of (link_after r w h) = last_val_of h"
  "expr_of (link_after r w h) = expr_of h" "counter_of (link_after r w h) = counter_of h"
  by (simp_all add: link_after_def Let_def)

lemma ring_prev_ne:
  assumes "ring h r (pre @ w # post)" "distinct (r # pre @ w # post)"
  shows "prev_of h w \<in> set (r # pre)" "next_of h w \<in> set (post @ [r])" "prev_of h w \<noteq> w"
proof -
  from assms(1) have l: "dpath (next_of h) (prev_of h) r pre w"
    and rr: "dpath (next_of h) (prev_of h) w post r"
    by (simp_all add: ring_def dpath_append)
  from dpath_prev_last [OF l] show p: "prev_of h w \<in> set (r # pre)"
    by (metis last_in_set list.distinct(1))
  from dpath_next_hd [OF rr] show "next_of h w \<in> set (post @ [r])"
    by (metis hd_in_set snoc_eq_iff_butlast)
  from p assms(2) show "prev_of h w \<noteq> w" by auto
qed

lemma unlink_ring:
  assumes "ring h r (pre @ w # post)" "distinct (r # pre @ w # post)"
  shows "ring (unlink w h) r (pre @ post)"
proof -
  note f = unlink_fields [OF ring_prev_ne(3) [OF assms]]
  from assms show ?thesis
    unfolding ring_def f by (intro dpath_unlink) auto
qed

lemma unlink_other:
  assumes "ring h r (pre @ w # post)" "distinct (r # pre @ w # post)"
      and "ring h r' ys" "set (r' # ys) \<inter> set (r # pre @ w # post) = {}"
  shows "ring (unlink w h) r' ys"
proof -
  note f = unlink_fields [OF ring_prev_ne(3) [OF assms(1,2)]]
  note m = ring_prev_ne(1,2) [OF assms(1,2)]
  have "dpath (next_of (unlink w h)) (prev_of (unlink w h)) r' ys r'
        = dpath (next_of h) (prev_of h) r' ys r'"
    unfolding f using m assms(4) by (intro dpath_frame) auto
  with assms(3) show ?thesis by (simp add: ring_def)
qed

lemma link_ring:
  assumes "ring h r xs" "distinct (r # xs)" "w \<notin> set (r # xs)"
  shows "ring (link_after r w h) r (w # xs)"
proof -
  from assms(3) have "w \<noteq> r" by auto
  note f = link_after_fields [OF this]
  from assms show ?thesis
    unfolding ring_def f by (intro dpath_link)
qed

lemma link_other:
  assumes "ring h r xs" "ring h r' ys" "w \<notin> set (r' # ys)" "w \<noteq> r"
      and "set (r' # ys) \<inter> set (r # xs) = {}"
  shows "ring (link_after r w h) r' ys"
proof -
  note f = link_after_fields [OF assms(4)]
  from assms(1) have "next_of h r \<in> set (xs @ [r])"
    unfolding ring_def by (intro dpath_next_in) auto
  then have "dpath (next_of (link_after r w h)) (prev_of (link_after r w h)) r' ys r'
        = dpath (next_of h) (prev_of h) r' ys r'"
    unfolding f using assms(3,5) by (intro dpath_frame) auto
  with assms(2) show ?thesis by (simp add: ring_def)
qed

lemma pool_nodes_iff: "p \<in> set pool_nodes \<longleftrightarrow> (\<exists>i. p = Pool i \<and> 0 \<le> i \<and> i < NR_WP)"
  by (auto simp: pool_nodes_def)

lemma wp_lists_nodes:
  assumes "wp_lists h fl al"
  shows "wp_free \<notin> set (fl @ al)" "wp_head \<notin> set (fl @ al)"
    and "\<And>p. p \<in> set (fl @ al) \<Longrightarrow> \<exists>i. p = Pool i \<and> 0 \<le> i \<and> i < NR_WP \<and> id_of h p = i"
proof -
  from assms have s: "set (fl @ al) = set pool_nodes" and ids: "wp_ids h"
    by (simp_all add: wp_lists_def)
  show "wp_free \<notin> set (fl @ al)" "wp_head \<notin> set (fl @ al)"
    unfolding s by (simp_all add: pool_nodes_iff)
  fix p assume "p \<in> set (fl @ al)"
  with s obtain i where "p = Pool i" "0 \<le> i" "i < NR_WP" by (auto simp: pool_nodes_iff)
  with ids show "\<exists>i. p = Pool i \<and> 0 \<le> i \<and> i < NR_WP \<and> id_of h p = i"
    by (auto simp: wp_ids_def)
qed

lemma ring_counter_upd [simp]: "ring (h\<lparr>counter_of := c\<rparr>) r xs = ring h r xs"
  by (simp add: ring_def)

lemma ring_last_val_upd [simp]: "ring (h\<lparr>last_val_of := c\<rparr>) r xs = ring h r xs"
  by (simp add: ring_def)

lemma ring_expr_upd [simp]: "ring (h\<lparr>expr_of := c\<rparr>) r xs = ring h r xs"
  by (simp add: ring_def)

lemma ring_next: "ring h r xs \<Longrightarrow> next_of h r = hd (xs @ [r])"
  unfolding ring_def by (rule dpath_next_hd)

lemma ring_first_prev: "ring h r (x # xs) \<Longrightarrow> prev_of h x = r"
  by (simp add: ring_def)

lemma new_wp_unfold:
  assumes "id_of h (next_of h wp_free) \<noteq> - 2" "prev_of h (next_of h wp_free) = wp_free"
      and "next_of h wp_free \<noteq> wp_free" "next_of h wp_free \<noteq> wp_head"
  shows "new_wp h =
     Inr (next_of h wp_free,
          (link_after wp_head (next_of h wp_free) (unlink (next_of h wp_free) h))
            \<lparr>counter_of := (counter_of h)(next_of h wp_free := 0)\<rparr>)"
  using assms by (simp add: new_wp_def unlink_def link_after_def Let_def)

lemma free_wp_unfold:
  "0 \<le> n \<Longrightarrow> n < NR_WP \<Longrightarrow>
   free_wp n h = (0, link_after wp_free (Pool n) (unlink (Pool n) h))"
  by (simp add: free_wp_def unlink_def link_after_def Let_def)

lemma new_wp_lists:
  assumes "wp_lists h (x # fl) al"
  shows "new_wp h =
           Inr (x, (link_after wp_head x (unlink x h))\<lparr>counter_of := (counter_of h)(x := 0)\<rparr>)"
    and "wp_lists ((link_after wp_head x (unlink x h))\<lparr>counter_of := (counter_of h)(x := 0)\<rparr>)
           fl (x # al)"
proof -
  from assms have rf: "ring h wp_free (x # fl)" and ra: "ring h wp_head al"
    and d: "distinct ((x # fl) @ al)" and s: "set ((x # fl) @ al) = set pool_nodes"
    and ids: "wp_ids h"
    by (simp_all add: wp_lists_def)
  note nodes = wp_lists_nodes [OF assms]
  from nodes(3) [of x] obtain i where i: "x = Pool i" "0 \<le> i" "id_of h x = i" by auto
  have nx: "next_of h wp_free = x" using ring_next [OF rf] by simp
  have px: "prev_of h x = wp_free" using rf by (rule ring_first_prev)
  from i nx px show "new_wp h =
           Inr (x, (link_after wp_head x (unlink x h))\<lparr>counter_of := (counter_of h)(x := 0)\<rparr>)"
    using new_wp_unfold [of h] by simp
  have df: "distinct (wp_free # [] @ x # fl)" using d nodes(1) by auto
  have rf': "ring h wp_free ([] @ x # fl)" using rf by simp
  have u1: "ring (unlink x h) wp_free fl" using unlink_ring [OF rf' df] by simp
  have u2: "ring (unlink x h) wp_head al"
    using d nodes(1,2) by (intro unlink_other [OF rf' df ra]) auto
  have l1: "ring (link_after wp_head x (unlink x h)) wp_head (x # al)"
    using d nodes(2) by (intro link_ring [OF u2]) auto
  have l2: "ring (link_after wp_head x (unlink x h)) wp_free fl"
    using d nodes(1,2) i by (intro link_other [OF u2 u1]) auto
  from l1 l2 d s ids
  show "wp_lists ((link_after wp_head x (unlink x h))\<lparr>counter_of := (counter_of h)(x := 0)\<rparr>)
           fl (x # al)"
    by (auto simp: wp_lists_def wp_ids_def)
qed

lemma new_wp_empty:
  assumes "wp_lists h [] al"
  shows "new_wp h = Inl AssertFail"
proof -
  from assms have "ring h wp_free []" "wp_ids h" by (simp_all add: wp_lists_def)
  then show ?thesis by (simp add: new_wp_def ring_def wp_ids_def)
qed

lemma free_wp_lists:
  assumes "wp_lists h fl al" "0 \<le> n" "n < NR_WP"
  shows "free_wp n h = (0, link_after wp_free (Pool n) (unlink (Pool n) h))"
    and "wp_lists (link_after wp_free (Pool n) (unlink (Pool n) h))
           (Pool n # remove1 (Pool n) fl) (remove1 (Pool n) al)"
proof -
  show "free_wp n h = (0, link_after wp_free (Pool n) (unlink (Pool n) h))"
    using assms(2,3) by (rule free_wp_unfold)
  let ?w = "Pool n"
  let ?h' = "link_after wp_free ?w (unlink ?w h)"
  from assms(1) have rf: "ring h wp_free fl" and ra: "ring h wp_head al"
    and d: "distinct (fl @ al)" and s: "set (fl @ al) = set pool_nodes"
    and ids: "wp_ids h"
    by (simp_all add: wp_lists_def)
  note nodes = wp_lists_nodes(1,2) [OF assms(1)]
  have "?w \<in> set pool_nodes" using assms(2,3) by (simp add: pool_nodes_iff)
  with s have "?w \<in> set fl \<or> ?w \<in> set al" by auto
  then show "wp_lists ?h' (?w # remove1 ?w fl) (remove1 ?w al)"
  proof
    assume "?w \<in> set fl"
    then obtain pre post where fl: "fl = pre @ ?w # post" by (auto dest: split_list)
    with d have notin: "?w \<notin> set pre" "?w \<notin> set post" "?w \<notin> set al" by auto
    have r1: "remove1 ?w fl = pre @ post" using fl notin by (simp add: remove1_append)
    have r2: "remove1 ?w al = al" using notin by (simp add: remove1_idem)
    have df: "distinct (wp_free # pre @ ?w # post)" using d nodes fl by auto
    have rf': "ring h wp_free (pre @ ?w # post)" using rf fl by simp
    have u1: "ring (unlink ?w h) wp_free (pre @ post)" by (rule unlink_ring [OF rf' df])
    have u2: "ring (unlink ?w h) wp_head al"
      using d nodes fl by (intro unlink_other [OF rf' df ra]) auto
    have l1: "ring ?h' wp_free (?w # pre @ post)"
      using df by (intro link_ring [OF u1]) auto
    have l2: "ring ?h' wp_head al"
      using d nodes fl by (intro link_other [OF u1 u2]) auto
    from l1 l2 d s ids fl show ?thesis
      unfolding r1 r2 by (auto simp: wp_lists_def wp_ids_def)
  next
    assume "?w \<in> set al"
    then obtain pre post where al: "al = pre @ ?w # post" by (auto dest: split_list)
    with d have notin: "?w \<notin> set pre" "?w \<notin> set post" "?w \<notin> set fl" by auto
    have r1: "remove1 ?w al = pre @ post" using al notin by (simp add: remove1_append)
    have r2: "remove1 ?w fl = fl" using notin by (simp add: remove1_idem)
    have da: "distinct (wp_head # pre @ ?w # post)" using d nodes al by auto
    have ra': "ring h wp_head (pre @ ?w # post)" using ra al by simp
    have u1: "ring (unlink ?w h) wp_head (pre @ post)" by (rule unlink_ring [OF ra' da])
    have u2: "ring (unlink ?w h) wp_free fl"
      using d nodes al by (intro unlink_other [OF ra' da rf]) auto
    have l1: "ring ?h' wp_free (?w # fl)"
      using d nodes notin by (intro link_ring [OF u2]) auto
    have l2: "ring ?h' wp_head (pre @ post)"
      using d nodes al by (intro link_other [OF u2 u1]) auto
    from l1 l2 d s ids al show ?thesis
      unfolding r1 r2 by (auto simp: wp_lists_def wp_ids_def)
  qed
qed

lemma wp_lists_field_upd [simp]:
  "wp_lists (h\<lparr>counter_of := c\<rparr>) fl al = wp_lists h fl al"
  "wp_lists (h\<lparr>last_val_of := lv\<rparr>) fl al = wp_lists h fl al"
  "wp_lists (h\<lparr>expr_of := ex\<rparr>) fl al = wp_lists h fl al"
  by (simp_all add: wp_lists_def wp_ids_def)

lemma wp_watch_lists:
  assumes "wp_lists h (x # fl) al" "length (c_str e) < 100"
  shows "\<exists>h'. wp_watch e v h = Inr (id_of h x, h') \<and> wp_lists h' fl (x # al)
           \<and> id_of h' = id_of h
           \<and> expr_of h' = (expr_of h)(x := c_str e)
           \<and> last_val_of h' = (last_val_of h)(x := v)
           \<and> counter_of h' = (counter_of h)(x := 0)"
  using new_wp_lists [OF assms(1)] assms(2)
  by (simp add: wp_watch_def strcpy_expr_def Let_def)

lemma wp_watch_preserves:
  assumes "wp_lists h fl al" "wp_watch e v h = Inr (i, h')" "length (c_str e) < 100"
  shows "\<exists>x fl'. fl = x # fl' \<and> wp_lists h' fl' (x # al) \<and> i = id_of h x"
proof (cases fl)
  case Nil
  with assms show ?thesis by (simp add: wp_watch_def new_wp_empty)
next
  case (Cons x fl')
  with assms(1) have l: "wp_lists h (x # fl') al" by simp
  from wp_watch_lists [OF l assms(3), of v] assms(2) Cons show ?thesis by auto
qed

lemma walk_dpath:
  "dpath nx pv a xs b \<Longrightarrow> b \<notin> set xs \<Longrightarrow> length xs < k \<Longrightarrow> walk nx k a b = Some xs"
proof (induction xs arbitrary: a k)
  case Nil
  then show ?case by (cases k) auto
next
  case (Cons x xs)
  then show ?case by (cases k) auto
qed

lemma pool_nodes_length: "length pool_nodes = 32" "distinct pool_nodes"
  by (simp_all add: pool_nodes_def distinct_map inj_on_def)

lemma wp_lists_length:
  assumes "wp_lists h fl al"
  shows "length fl + length al = 32"
proof -
  from assms have d: "distinct (fl @ al)" and s: "set (fl @ al) = set pool_nodes"
    by (simp_all add: wp_lists_def)
  have "length (fl @ al) = card (set (fl @ al))" using distinct_card [OF d] by simp
  also have "\<dots> = length pool_nodes" using s pool_nodes_length(2) by (simp add: distinct_card)
  finally show ?thesis by (simp add: pool_nodes_length)
qed

lemma wp_lists_walk:
  assumes "wp_lists h fl al"
  shows "free_list h = Some fl" "active_list h = Some al"
proof -
  note n = wp_lists_nodes(1,2) [OF assms]
  note len = wp_lists_length [OF assms]
  from assms have "ring h wp_free fl" "ring h wp_head al" by (simp_all add: wp_lists_def)
  then show "free_list h = Some fl" "active_list h = Some al"
    unfolding free_list_def active_list_def ring_def
    using n len by (auto intro!: walk_dpath)
qed

lemma wp_inv_iff: "wp_inv h \<longleftrightarrow> (\<exists>fl al. wp_lists h fl al)"
proof
  assume "wp_inv h"
  then show "\<exists>fl al. wp_lists h fl al"
    by (auto simp: wp_inv_def split: option.splits)
next
  assume "\<exists>fl al. wp_lists h fl al"
  then obtain fl al where "wp_lists h fl al" by blast
  with wp_lists_walk [OF this] show "wp_inv h" by (simp add: wp_inv_def)
qed

lemma wp_lists_init: "wp_lists init_wp_pool pool_nodes []"
  by code_simp

section \<open>Sequences of calls on the pool\<close>

lemma wp_inv_init: "wp_inv init_wp_pool"
  unfolding wp_inv_iff using wp_lists_init by blast

lemma wp_inv_new_wp:
  assumes "wp_inv h" "new_wp h = Inr (p, h')"
  shows "wp_inv h'"
proof -
  from assms(1) obtain fl al where l: "wp_lists h fl al" unfolding wp_inv_iff by blast
  show ?thesis
  proof (cases fl)
    case Nil
    with l assms(2) show ?thesis by (simp add: new_wp_empty)
  next
    case (Cons x fl')
    with l have l': "wp_lists h (x # fl') al" by simp
    from new_wp_lists(1) [OF l'] assms(2)
    have "h' = (link_after wp_head x (unlink x h))\<lparr>counter_of := (counter_of h)(x := 0)\<rparr>"
      by simp
    with new_wp_lists(2) [OF l'] have "wp_lists h' fl' (x # al)" by simp
    then show ?thesis unfolding wp_inv_iff by blast
  qed
qed

lemma wp_inv_wp_watch:
  assumes "wp_inv h" "wp_watch e v h = Inr (i, h')" "length (c_str e) < 100"
  shows "wp_inv h'"
proof -
  from assms(1) obtain fl al where "wp_lists h fl al" unfolding wp_inv_iff by blast
  from wp_watch_preserves [OF this assms(2,3)] show ?thesis unfolding wp_inv_iff by blast
qed

lemma wp_inv_free_wp:
  assumes "wp_inv h"
  shows "wp_inv (snd (free_wp n h))"
proof (cases "0 \<le> n \<and> n < NR_WP")
  case True
  from assms obtain fl al where "wp_lists h fl al" unfolding wp_inv_iff by blast
  from free_wp_lists [OF this, of n] True
  have "wp_lists (snd (free_wp n h)) (Pool n # remove1 (Pool n) fl) (remove1 (Pool n) al)"
    by simp
  then show ?thesis unfolding wp_inv_iff by blast
next
  case False
  with assms show ?thesis by (auto simp: free_wp_def)
qed

lemma wp_inv_partition:
  assumes "wp_inv h"
  shows "\<exists>fl al. free_list h = Some fl \<and> active_list h = Some al
           \<and> ring h wp_free fl \<and> ring h wp_head al
           \<and> set fl \<inter> set al = {} \<and> set fl \<union> set al = set pool_nodes
           \<and> distinct fl \<and> distinct al"
proof -
  from assms obtain fl al where l: "wp_lists h fl al" unfolding wp_inv_iff by blast
  from wp_lists_walk [OF l] l show ?thesis by (auto simp: wp_lists_def)
qed

lemma upto_Cons: "k \<le> 31 \<Longrightarrow> [k..31] = k # [k + 1..31]"
  by (simp add: upto_rec1)

lemma wp_watch_all_lists:
  assumes "wp_lists h (map Pool [k..31]) al" "0 \<le> k" "k + int (length es) \<le> 32"
      and "\<forall>ev \<in> set es. length (c_str (fst ev)) < 100"
  shows "\<exists>h'. wp_watch_all es h = Inr ([k..k + int (length es) - 1], h')
           \<and> wp_lists h' (map Pool [k + int (length es)..31])
                (rev (map Pool [k..k + int (length es) - 1]) @ al)
           \<and> id_of h' = id_of h
           \<and> (\<forall>p. p \<notin> Pool ` {k..k + int (length es) - 1} \<longrightarrow>
                 expr_of h' p = expr_of h p \<and> last_val_of h' p = last_val_of h p
                 \<and> counter_of h' p = counter_of h p)
           \<and> map (\<lambda>p. (expr_of h' p, last_val_of h' p)) (map Pool [k..k + int (length es) - 1])
               = map (\<lambda>ev. (c_str (fst ev), snd ev)) es
           \<and> (\<forall>p \<in> Pool ` {k..k + int (length es) - 1}. counter_of h' p = 0)"
  using assms
proof (induction es arbitrary: h k al)
  case Nil
  then show ?case by simp
next
  case (Cons ev es)
  obtain e v where ev: "ev = (e, v)" by (cases ev)
  from Cons.prems(2,3) have k: "k \<le> 31" by simp
  with Cons.prems(1) have l: "wp_lists h (Pool k # map Pool [k + 1..31]) al"
    by (simp add: upto_Cons)
  from Cons.prems(4) ev have len: "length (c_str e) < 100" by simp
  from wp_lists_nodes(3) [OF l, of "Pool k"] have idk: "id_of h (Pool k) = k" by simp
  from wp_watch_lists [OF l len, of v] idk obtain h1 where
    w: "wp_watch e v h = Inr (k, h1)"
    and l1: "wp_lists h1 (map Pool [k + 1..31]) (Pool k # al)"
    and f1: "id_of h1 = id_of h" "expr_of h1 = (expr_of h)(Pool k := c_str e)"
       "last_val_of h1 = (last_val_of h)(Pool k := v)"
       "counter_of h1 = (counter_of h)(Pool k := 0)"
    by auto
  have "\<exists>h'. wp_watch_all es h1 = Inr ([k + 1..k + 1 + int (length es) - 1], h')
           \<and> wp_lists h' (map Pool [k + 1 + int (length es)..31])
                (rev (map Pool [k + 1..k + 1 + int (length es) - 1]) @ Pool k # al)
           \<and> id_of h' = id_of h1
           \<and> (\<forall>p. p \<notin> Pool ` {k + 1..k + 1 + int (length es) - 1} \<longrightarrow>
                 expr_of h' p = expr_of h1 p \<and> last_val_of h' p = last_val_of h1 p
                 \<and> counter_of h' p = counter_of h1 p)
           \<and> map (\<lambda>p. (expr_of h' p, last_val_of h' p)) (map Pool [k + 1..k + 1 + int (length es) - 1])
               = map (\<lambda>ev. (c_str (fst ev), snd ev)) es
           \<and> (\<forall>p \<in> Pool ` {k + 1..k + 1 + int (length es) - 1}. counter_of h' p = 0)"
    using Cons.prems(2,3,4) by (intro Cons.IH [OF l1]) auto
  then obtain h' where
    a: "wp_watch_all es h1 = Inr ([k + 1..k + 1 + int (length es) - 1], h')"
    and b: "wp_lists h' (map Pool [k + 1 + int (length es)..31])
                (rev (map Pool [k + 1..k + 1 + int (length es) - 1]) @ Pool k # al)"
    and c: "id_of h' = id_of h1"
    and d: "\<forall>p. p \<notin> Pool ` {k + 1..k + 1 + int (length es) - 1} \<longrightarrow>
                 expr_of h' p = expr_of h1 p \<and> last_val_of h' p = last_val_of h1 p
                 \<and> counter_of h' p = counter_of h1 p"
    and e: "map (\<lambda>p. (expr_of h' p, last_val_of h' p)) (map Pool [k + 1..k + 1 + int (length es) - 1])
               = map (\<lambda>ev. (c_str (fst ev), snd ev)) es"
    and g: "\<forall>p \<in> Pool ` {k + 1..k + 1 + int (length es) - 1}. counter_of h' p = 0"
    by blast
  have up: "[k..k + int (length (ev # es)) - 1] = k # [k + 1..k + 1 + int (length es) - 1]"
    by (simp add: upto_rec1 add.commute add.left_commute)
  have kk: "Pool k \<notin> Pool ` {k + 1..k + 1 + int (length es) - 1}" by auto
  have set_eq: "Pool ` {k..k + int (length (ev # es)) - 1}
              = insert (Pool k) (Pool ` {k + 1..k + 1 + int (length es) - 1})"
    by (auto simp: image_iff)
  show ?case
    unfolding up set_eq
    using w a b c d e g f1 ev kk
    by (auto simp: algebra_simps)
qed

lemma print_wp_from_path:
  "dpath (next_of h) (prev_of h) a xs cur \<Longrightarrow> id_of h a = - 1 \<Longrightarrow>
   \<forall>x \<in> set xs. id_of h x \<noteq> - 1 \<Longrightarrow>
   print_wp_from h cur printed = Some (printed @ map (line_of h) (rev xs))"
proof (induction xs arbitrary: cur printed rule: rev_induct)
  case Nil
  then show ?case by (subst print_wp_from.simps) simp
next
  case (snoc y ys)
  from snoc.prems(1) have p: "dpath (next_of h) (prev_of h) a ys y" and c: "prev_of h cur = y"
    by (simp_all add: dpath_snoc)
  from snoc.prems(3) have y: "id_of h y \<noteq> - 1" and ys: "\<forall>x \<in> set ys. id_of h x \<noteq> - 1"
    by simp_all
  have "print_wp_from h cur printed = print_wp_from h y (printed @ [line_of h y])"
    using c y by (subst print_wp_from.simps) (simp add: Let_def line_of_def)
  also have "\<dots> = Some ((printed @ [line_of h y]) @ map (line_of h) (rev ys))"
    by (rule snoc.IH [OF p snoc.prems(2) ys])
  finally show ?case by simp
qed

lemma print_wp_lists:
  assumes "wp_lists h fl al"
  shows "print_wp h = Some (map (line_of h) (rev al))"
proof -
  from assms have r: "dpath (next_of h) (prev_of h) wp_head al wp_head" and i: "wp_ids h"
    by (simp_all add: wp_lists_def ring_def)
  have "\<forall>x \<in> set al. id_of h x \<noteq> - 1"
    using wp_lists_nodes(3) [OF assms] by fastforce
  with print_wp_from_path [OF r, of "[]"] i show ?thesis
    by (simp add: print_wp_def wp_ids_def)
qed

lemma length_upto_nat: "length [0..int n - 1] = n"
  by simp

lemma nth_upto_0: "j < n \<Longrightarrow> [0..int n - 1] ! j = int j"
  by (simp add: nth_upto)

lemma creations_from_init:
  assumes "length es \<le> 32" "\<forall>ev \<in> set es. length (c_str (fst ev)) < 100"
  shows "\<exists>h'. wp_watch_all es init_wp_pool = Inr ([0..int (length es) - 1], h')
           \<and> wp_lists h' (map Pool [int (length es)..31]) (rev (map Pool [0..int (length es) - 1]))
           \<and> map (line_of h') (map Pool [0..int (length es) - 1])
               = map (\<lambda>(i, ev). (i, c_str (fst ev), snd ev)) (zip [0..int (length es) - 1] es)"
proof -
  have l0: "wp_lists init_wp_pool (map Pool [0..31]) []"
    using wp_lists_init by (simp add: pool_nodes_def)
  from wp_watch_all_lists [OF l0 _ _ assms(2)] assms(1) obtain h' where
    a: "wp_watch_all es init_wp_pool = Inr ([0..int (length es) - 1], h')"
    and b: "wp_lists h' (map Pool [int (length es)..31]) (rev (map Pool [0..int (length es) - 1]))"
    and e: "map (\<lambda>p. (expr_of h' p, last_val_of h' p)) (map Pool [0..int (length es) - 1])
               = map (\<lambda>ev. (c_str (fst ev), snd ev)) es"
    by auto
  have ids: "\<And>j. j < length es \<Longrightarrow> id_of h' (Pool (int j)) = int j"
  proof -
    fix j assume "j < length es"
    with assms(1) have "int j \<in> set [0..NR_WP - 1]" by simp
    moreover from b have "wp_ids h'" by (simp add: wp_lists_def)
    ultimately show "id_of h' (Pool (int j)) = int j" unfolding wp_ids_def by blast
  qed
  have "map (line_of h') (map Pool [0..int (length es) - 1])
          = map (\<lambda>(i, ev). (i, c_str (fst ev), snd ev)) (zip [0..int (length es) - 1] es)"
  proof (rule nth_equalityI)
    show "length (map (line_of h') (map Pool [0..int (length es) - 1]))
          = length (map (\<lambda>(i, ev). (i, c_str (fst ev), snd ev)) (zip [0..int (length es) - 1] es))"
      by simp
  next
    fix j assume "j < length (map (line_of h') (map Pool [0..int (length es) - 1]))"
    then have j: "j < length es" by simp
    from e have "map (\<lambda>p. (expr_of h' p, last_val_of h' p)) (map Pool [0..int (length es) - 1]) ! j
               = map (\<lambda>ev. (c_str (fst ev), snd ev)) es ! j" by simp
    with j have "expr_of h' (Pool (int j)) = c_str (fst (es ! j))"
      and "last_val_of h' (Pool (int j)) = snd (es ! j)"
      by (simp_all add: nth_upto_0)
    with j ids [OF j]
    show "map (line_of h') (map Pool [0..int (length es) - 1]) ! j
          = map (\<lambda>(i, ev). (i, c_str (fst ev), snd ev)) (zip [0..int (length es) - 1] es) ! j"
      by (simp add: nth_upto_0 line_of_def)
  qed
  with a b show ?thesis by blast
qed

section \<open>The token buffer from one call to the next\<close>

text \<open>
  A call of \<open>expr\<close> lexes into the static buffer from entry 0 and reads only entries it
  has written, and of these the text only where it has written one. So two buffers of
  the same size give the same outcome, unless no token at all is lexed (then the slot 0
  left by an earlier call is read, and the call aborts whatever it holds).
\<close>

lemma emit_token_length:
  "emit_token ty sub tokens n = Inr (tokens', n') \<Longrightarrow> length tokens' = length tokens"
  by (auto simp: emit_token_def split: if_splits)

lemma make_token_loop_length:
  "make_token_loop s tokens n = Inr (lexed, tokens', n') \<Longrightarrow> length tokens' = length tokens"
proof (induction s tokens n rule: make_token_loop.induct)
  case (1 s tokens n)
  show ?case
  proof (cases "s = [] \<or> hd s = CHR 0x00")
    case True
    with "1.prems" show ?thesis by (simp add: make_token_loop.simps [of s])
  next
    case False
    show ?thesis
    proof (cases "first_match rules s")
      case None
      with False "1.prems" show ?thesis by (simp add: make_token_loop.simps [of s])
    next
      case (Some a)
      obtain len ty where a: "a = (len, ty)" by (cases a)
      from "1.prems" False Some a obtain tk1 n1 where
        e: "emit_token ty (take len s) tokens n = Inr (tk1, n1)"
        and r: "make_token_loop (drop len s) tk1 n1 = Inr (lexed, tokens', n')"
        by (auto simp: make_token_loop.simps [of s] split: sum.splits)
      from "1.IH" [OF False Some a [symmetric] e refl r] emit_token_length [OF e]
      show ?thesis by simp
    qed
  qed
qed

lemma tokens_after_length: "length (tokens_after e tokens) = length tokens"
  by (auto simp: tokens_after_def make_token_def split: sum.splits
           dest: make_token_loop_length)

lemma agree_tk_type: "agree n t t' \<Longrightarrow> j < int n \<Longrightarrow> tk_type t j = tk_type t' j"
  by (auto simp: agree_def tk_type_def tk_at_def)

lemma agree_mono: "agree n t t' \<Longrightarrow> m \<le> n \<Longrightarrow> agree m t t'"
  by (auto simp: agree_def)

lemma agree_update:
  "agree n t t' \<Longrightarrow> n < length t \<Longrightarrow> type x = type x' \<Longrightarrow>
   (type x = TK_INT \<or> type x = TK_REG \<longrightarrow> str x = str x') \<Longrightarrow>
   agree (Suc n) (t[n := x]) (t'[n := x'])"
  by (auto simp: agree_def nth_list_update less_Suc_eq)

lemma emit_token_agree:
  assumes ag: "agree n t t'"
  shows "(\<exists>err. emit_token ty sub t n = Inl err \<and> emit_token ty sub t' n = Inl err)
         \<or> (\<exists>a a' m. emit_token ty sub t n = Inr (a, m) \<and> emit_token ty sub t' n = Inr (a', m)
               \<and> agree m a a')"
proof -
  from ag have len: "length t = length t'" by (simp add: agree_def)
  consider (blank) "ty = TK_NOTYPE"
    | (full) "ty \<noteq> TK_NOTYPE" "length t \<le> n"
    | (copied) "ty \<noteq> TK_NOTYPE" "n < length t" "ty = TK_REG \<or> ty = TK_INT"
    | (ambiguous) "ty \<noteq> TK_NOTYPE" "n < length t" "\<not> (ty = TK_REG \<or> ty = TK_INT)"
        "ty = DUMMY_3 \<or> ty = DUMMY_2 \<or> ty = DUMMY_1"
    | (other) "ty \<noteq> TK_NOTYPE" "n < length t" "\<not> (ty = TK_REG \<or> ty = TK_INT)"
        "\<not> (ty = DUMMY_3 \<or> ty = DUMMY_2 \<or> ty = DUMMY_1)"
    by linarith
  then show ?thesis
  proof cases
    case blank
    with ag show ?thesis by (simp add: emit_token_def)
  next
    case full
    with len show ?thesis by (simp add: emit_token_def)
  next
    case copied
    show ?thesis
    proof (cases "32 \<le> length sub")
      case True
      with copied len show ?thesis by (simp add: emit_token_def)
    next
      case False
      have "agree (Suc n) (t[n := \<lparr>type = ty, str = sub\<rparr>]) (t'[n := \<lparr>type = ty, str = sub\<rparr>])"
        using ag copied(2) by (rule agree_update) simp_all
      with False copied len show ?thesis by (simp add: emit_token_def)
    qed
  next
    case ambiguous
    have prev: "n \<noteq> 0 \<Longrightarrow> type (t' ! (n - 1)) = type (t ! (n - 1))"
      using ag by (simp add: agree_def)
    have upd: "\<And>k. k \<noteq> TK_INT \<Longrightarrow> k \<noteq> TK_REG \<Longrightarrow>
                 agree (Suc n) (t[n := (t ! n)\<lparr>type := k\<rparr>]) (t'[n := (t' ! n)\<lparr>type := k\<rparr>])"
      using ag ambiguous(2) by (rule agree_update) simp_all
    show ?thesis
    proof (cases "n = 0 \<or> \<not> is_operand (type (t ! (n - 1)))")
      case True
      then have c': "n = 0 \<or> \<not> is_operand (type (t' ! (n - 1)))" using prev by auto
      have "agree (Suc n)
              (t[n := (t ! n)\<lparr>type :=
                  (if ty = DUMMY_1 then TK_POS else if ty = DUMMY_2 then TK_NEG else TK_DEREF)\<rparr>])
              (t'[n := (t' ! n)\<lparr>type :=
                  (if ty = DUMMY_1 then TK_POS else if ty = DUMMY_2 then TK_NEG else TK_DEREF)\<rparr>])"
        by (rule upd) simp_all
      with True c' ambiguous len show ?thesis
        unfolding emit_token_def by (simp del: list_update_overwrite)
    next
      case False
      then have c': "\<not> (n = 0 \<or> \<not> is_operand (type (t' ! (n - 1))))" using prev by auto
      have "agree (Suc n)
              (t[n := (t ! n)\<lparr>type :=
                  (if ty = DUMMY_1 then TK_ADD else if ty = DUMMY_2 then TK_MINUS else TK_MUL)\<rparr>])
              (t'[n := (t' ! n)\<lparr>type :=
                  (if ty = DUMMY_1 then TK_ADD else if ty = DUMMY_2 then TK_MINUS else TK_MUL)\<rparr>])"
        by (rule upd) simp_all
      with False c' ambiguous len show ?thesis
        unfolding emit_token_def by (simp del: list_update_overwrite)
    qed
  next
    case other
    have "agree (Suc n) (t[n := (t ! n)\<lparr>type := ty\<rparr>]) (t'[n := (t' ! n)\<lparr>type := ty\<rparr>])"
      using ag other(2) by (rule agree_update) (use other in simp_all)
    with other len show ?thesis by (simp add: emit_token_def)
  qed
qed

lemma make_token_loop_agree:
  "agree n t t' \<Longrightarrow>
   (\<exists>err. make_token_loop s t n = Inl err \<and> make_token_loop s t' n = Inl err)
   \<or> (\<exists>lexed a a' m. make_token_loop s t n = Inr (lexed, a, m)
         \<and> make_token_loop s t' n = Inr (lexed, a', m) \<and> agree m a a')"
proof (induction s t n arbitrary: t' rule: make_token_loop.induct)
  case (1 s t n)
  show ?case
  proof (cases "s = [] \<or> hd s = CHR 0x00")
    case True
    with "1.prems" show ?thesis
      by (auto simp: make_token_loop.simps [of s])
  next
    case False
    show ?thesis
    proof (cases "first_match rules s")
      case None
      with False "1.prems" show ?thesis by (auto simp: make_token_loop.simps [of s])
    next
      case (Some a)
      obtain len ty where a: "a = (len, ty)" by (cases a)
      from emit_token_agree [OF "1.prems", of ty "take len s"]
      show ?thesis
      proof (elim disjE exE conjE)
        fix err assume "emit_token ty (take len s) t n = Inl err"
          "emit_token ty (take len s) t' n = Inl err"
        with False Some a show ?thesis by (simp add: make_token_loop.simps [of s])
      next
        fix t1 t1' m
        assume e: "emit_token ty (take len s) t n = Inr (t1, m)"
          and e': "emit_token ty (take len s) t' n = Inr (t1', m)"
          and ag: "agree m t1 t1'"
        from "1.IH" [OF False Some a [symmetric] e refl ag]
        have "(\<exists>err. make_token_loop (drop len s) t1 m = Inl err
                  \<and> make_token_loop (drop len s) t1' m = Inl err)
              \<or> (\<exists>lexed a a' k. make_token_loop (drop len s) t1 m = Inr (lexed, a, k)
                  \<and> make_token_loop (drop len s) t1' m = Inr (lexed, a', k) \<and> agree k a a')" .
        moreover have "make_token_loop s t n = make_token_loop (drop len s) t1 m"
          using False Some a e by (simp add: make_token_loop.simps [of s t])
        moreover have "make_token_loop s t' n = make_token_loop (drop len s) t1' m"
          using False Some a e' by (simp add: make_token_loop.simps [of s t'])
        ultimately show ?thesis by simp
      qed
    qed
  qed
qed

lemma check_parentheses_from_agree:
  "agree n t t' \<Longrightarrow> e < int n \<Longrightarrow>
   check_parentheses_from t i e c = check_parentheses_from t' i e c"
proof (induction t i e c rule: check_parentheses_from.induct)
  case (1 t i e c)
  show ?case
  proof (cases "i \<le> e")
    case False
    then show ?thesis
      by (simp add: check_parentheses_from.simps [of t i] check_parentheses_from.simps [of t' i])
  next
    case True
    with "1.prems" have ty: "tk_type t i = tk_type t' i" by (intro agree_tk_type) auto
    show ?thesis
    proof (cases "tk_type t i")
      case (Inl err)
      moreover from Inl ty have "tk_type t' i = Inl err" by simp
      ultimately show ?thesis using True
        by (simp add: check_parentheses_from.simps [of t i] check_parentheses_from.simps [of t' i])
    next
      case (Inr k)
      moreover from Inr ty have "tk_type t' i = Inr k" by simp
      ultimately show ?thesis using True "1.IH" [OF True Inr refl] "1.prems"
        by (simp add: check_parentheses_from.simps [of t i] check_parentheses_from.simps [of t' i]
                      Let_def)
    qed
  qed
qed

lemma find_major_operator_from_agree:
  "agree n t t' \<Longrightarrow> e \<le> int n \<Longrightarrow>
   find_major_operator_from t i e m c q = find_major_operator_from t' i e m c q"
proof (induction t i e m c q rule: find_major_operator_from.induct)
  case (1 t i e m c q)
  show ?case
  proof (cases "i < e")
    case False
    then show ?thesis
      by (simp add: find_major_operator_from.simps [of t i]
                    find_major_operator_from.simps [of t' i])
  next
    case True
    with "1.prems" have ty: "tk_type t i = tk_type t' i" by (intro agree_tk_type) auto
    show ?thesis
    proof (cases "tk_type t i")
      case (Inl err)
      moreover from Inl ty have "tk_type t' i = Inl err" by simp
      ultimately show ?thesis using True
        by (simp add: find_major_operator_from.simps [of t i]
                      find_major_operator_from.simps [of t' i])
    next
      case (Inr k)
      note ih = "1.IH" [OF True Inr]
      from Inr ty have k': "tk_type t' i = Inr k" by simp
      show ?thesis
        using True Inr k' ih "1.prems"
        by (subst find_major_operator_from.simps [of t i],
            subst find_major_operator_from.simps [of t' i])
           (auto split: sum.splits)
    qed
  qed
qed




lemma agree_tk_at:
  "agree n t t' \<Longrightarrow> j < int n \<Longrightarrow>
   (\<exists>err. tk_at t j = Inl err \<and> tk_at t' j = Inl err)
   \<or> (\<exists>x x'. tk_at t j = Inr x \<and> tk_at t' j = Inr x' \<and> type x = type x'
         \<and> (type x = TK_INT \<or> type x = TK_REG \<longrightarrow> str x = str x'))"
  by (auto simp: agree_def tk_at_def)

lemma strip_parentheses_agree:
  "agree n t t' \<Longrightarrow> b < int n \<Longrightarrow> e < int n \<Longrightarrow>
   strip_parentheses t b e = strip_parentheses t' b e"
  using agree_tk_type [of n t t' b] agree_tk_type [of n t t' e]
  by (simp add: strip_parentheses_def split: sum.splits)

lemma cal_expr_agree:
  "agree n t t' \<Longrightarrow> b < int n \<Longrightarrow> e < int n \<Longrightarrow>
   cal_expr R M t b e = cal_expr R M t' b e"
proof (induction R M t b e rule: cal_expr.induct)
  case (1 R M t b e)
  note ag = \<open>agree n t t'\<close>
  have cp: "check_parentheses t' b e = check_parentheses t b e"
    using check_parentheses_from_agree [OF ag \<open>e < int n\<close>] by (simp add: check_parentheses_def)
  have sp: "strip_parentheses t' b e = strip_parentheses t b e"
    using strip_parentheses_agree [OF ag \<open>b < int n\<close> \<open>e < int n\<close>] by simp
  show ?case
  proof (cases "check_parentheses t b e")
    case (Inl err)
    with cp show ?thesis
      by (simp add: cal_expr.simps [of R M t b e] cal_expr.simps [of R M t' b e])
  next
    case (Inr balanced)
    note bal = this
    show ?thesis
    proof (cases balanced)
      case False
      with bal cp show ?thesis
        by (simp add: cal_expr.simps [of R M t b e] cal_expr.simps [of R M t' b e])
    next
      case True
      show ?thesis
      proof (cases "strip_parentheses t b e")
        case (Inl err)
        with bal True cp sp show ?thesis
          by (simp add: cal_expr.simps [of R M t b e] cal_expr.simps [of R M t' b e])
      next
        case (Inr be)
        obtain b' e' where be: "be = (b', e')" by (cases be)
        note st = Inr [unfolded be]
        from strip_parentheses_shrinks [OF st] \<open>e < int n\<close>
        have e': "e' < int n" and bb': "b \<le> b'" by auto
        have lhs: "cal_expr R M t b e =
                 (if b' > e' then Inl AssertFail
                  else if b' = e' then
                    (case tk_at t b' of
                       Inl err \<Rightarrow> Inl err
                     | Inr x \<Rightarrow>
                         if type x = TK_INT then Inr (word_of_int (strtol0 (str x)))
                         else if type x = TK_REG then
                           (case R (str x) of Some result \<Rightarrow> Inr result | None \<Rightarrow> Inr 0)
                         else Inr 0)
                  else if e' - b' = 1 then
                    (case tk_type t b' of
                       Inl err \<Rightarrow> Inl err
                     | Inr k \<Rightarrow>
                         if k = TK_POS then cal_expr R M t (b' + 1) e'
                         else if k = TK_NEG then
                           (case cal_expr R M t (b' + 1) e' of
                              Inl err \<Rightarrow> Inl err | Inr v \<Rightarrow> Inr (- v))
                         else if k = TK_DEREF then
                           (case cal_expr R M t (b' + 1) e' of
                              Inl err \<Rightarrow> Inl err | Inr v \<Rightarrow> Inr (M v 8))
                         else Inl AssertFail)
                  else
                    (case find_major_operator t b' e' of
                       Inl err \<Rightarrow> Inl err
                     | Inr p \<Rightarrow>
                         if p = - 1 then Inl AssertFail
                         else
                           (case cal_expr R M t b' (p - 1) of
                              Inl err \<Rightarrow> Inl err
                            | Inr val_1 \<Rightarrow>
                                (case cal_expr R M t (p + 1) e' of
                                   Inl err \<Rightarrow> Inl err
                                 | Inr val_2 \<Rightarrow>
                                     (case tk_type t p of
                                        Inl err \<Rightarrow> Inl err
                                      | Inr op_type \<Rightarrow> apply_binary op_type val_1 val_2)))))"
          using bal True st by (subst cal_expr.simps) simp
        have rhs: "cal_expr R M t' b e =
                 (if b' > e' then Inl AssertFail
                  else if b' = e' then
                    (case tk_at t' b' of
                       Inl err \<Rightarrow> Inl err
                     | Inr x \<Rightarrow>
                         if type x = TK_INT then Inr (word_of_int (strtol0 (str x)))
                         else if type x = TK_REG then
                           (case R (str x) of Some result \<Rightarrow> Inr result | None \<Rightarrow> Inr 0)
                         else Inr 0)
                  else if e' - b' = 1 then
                    (case tk_type t' b' of
                       Inl err \<Rightarrow> Inl err
                     | Inr k \<Rightarrow>
                         if k = TK_POS then cal_expr R M t' (b' + 1) e'
                         else if k = TK_NEG then
                           (case cal_expr R M t' (b' + 1) e' of
                              Inl err \<Rightarrow> Inl err | Inr v \<Rightarrow> Inr (- v))
                         else if k = TK_DEREF then
                           (case cal_expr R M t' (b' + 1) e' of
                              Inl err \<Rightarrow> Inl err | Inr v \<Rightarrow> Inr (M v 8))
                         else Inl AssertFail)
                  else
                    (case find_major_operator t' b' e' of
                       Inl err \<Rightarrow> Inl err
                     | Inr p \<Rightarrow>
                         if p = - 1 then Inl AssertFail
                         else
                           (case cal_expr R M t' b' (p - 1) of
                              Inl err \<Rightarrow> Inl err
                            | Inr val_1 \<Rightarrow>
                                (case cal_expr R M t' (p + 1) e' of
                                   Inl err \<Rightarrow> Inl err
                                 | Inr val_2 \<Rightarrow>
                                     (case tk_type t' p of
                                        Inl err \<Rightarrow> Inl err
                                      | Inr op_type \<Rightarrow> apply_binary op_type val_1 val_2)))))"
          using bal True st cp sp by (subst cal_expr.simps) simp
        consider (empty) "b' > e'" | (single) "b' = e'" | (unary) "b' < e'" "e' - b' = 1"
          | (binary) "b' < e'" "e' - b' \<noteq> 1"
          by linarith
        then show ?thesis
        proof cases
          case empty
          then show ?thesis by (simp add: lhs rhs)
        next
          case single
          with e' have "b' < int n" by simp
          from agree_tk_at [OF ag this] single show ?thesis
            by (auto simp: lhs rhs)
        next
          case unary
          with e' have b': "b' < int n" by simp
          have ty: "tk_type t' b' = tk_type t b'"
            using agree_tk_type [OF ag b'] by simp
          have ih: "\<And>k. tk_type t b' = Inr k \<Longrightarrow> k = TK_POS \<or> k = TK_NEG \<or> k = TK_DEREF \<Longrightarrow>
                      cal_expr R M t' (b' + 1) e' = cal_expr R M t (b' + 1) e'"
          proof -
            fix k assume k: "tk_type t b' = Inr k" and kk: "k = TK_POS \<or> k = TK_NEG \<or> k = TK_DEREF"
            have n1: "b' + 1 < int n" using unary e' by simp
            from kk show "cal_expr R M t' (b' + 1) e' = cal_expr R M t (b' + 1) e'"
            proof (elim disjE)
              assume "k = TK_POS"
              from "1.IH"(1) [OF bal _ st refl _ _ unary(2) k this ag n1 e'] True unary
              show ?thesis by simp
            next
              assume a: "k = TK_NEG"
              from "1.IH"(2) [OF bal _ st refl _ _ unary(2) k _ a ag n1 e'] True unary a
              show ?thesis by simp
            next
              assume a: "k = TK_DEREF"
              from "1.IH"(3) [OF bal _ st refl _ _ unary(2) k _ _ a ag n1 e'] True unary a
              show ?thesis by simp
            qed
          qed
          show ?thesis
          proof (cases "tk_type t b'")
            case (Inl err)
            with unary ty show ?thesis by (simp add: lhs rhs)
          next
            case (Inr k)
            with unary ty ih [OF Inr] show ?thesis by (simp add: lhs rhs)
          qed
        next
          case binary
          have fm: "find_major_operator t' b' e' = find_major_operator t b' e'"
            using find_major_operator_from_agree [OF ag, of e' b'] e'
            by (simp add: find_major_operator_def)
          show ?thesis
          proof (cases "find_major_operator t b' e'")
            case (Inl err)
            with binary fm show ?thesis by (simp add: lhs rhs)
          next
            case (Inr p)
            show ?thesis
            proof (cases "p = - 1")
              case True
              with binary fm Inr show ?thesis by (simp add: lhs rhs)
            next
              case False
              from find_major_operator_range [OF Inr False]
              have p: "b' \<le> p" "p < e'" by auto
              have bn: "b' < int n" using binary e' by simp
              have c1: "cal_expr R M t' b' (p - 1) = cal_expr R M t b' (p - 1)"
                using "1.IH"(4) [OF bal _ st refl _ _ binary(2) Inr False ag bn] \<open>agree n t t'\<close> True binary p e'
                by simp
              have c2: "\<And>v. cal_expr R M t b' (p - 1) = Inr v \<Longrightarrow>
                          cal_expr R M t' (p + 1) e' = cal_expr R M t (p + 1) e'"
                using "1.IH"(5) [OF bal _ st refl _ _ binary(2) Inr False _ ag] True binary p e'
                by simp
              have ty: "tk_type t' p = tk_type t p"
                using agree_tk_type [OF ag, of p] p e' by simp
              show ?thesis
                using binary Inr False fm c1 c2 ty
                by (simp add: lhs rhs split: sum.splits)
            qed
          qed
        qed
      qed
    qed
  qed
qed

lemma expr_agree:
  assumes len: "length tk = length tk'"
  shows "(\<exists>a. make_token e tk = Inr (True, a, 0)) \<or> expr R M tk e u = expr R M tk' e u"
proof -
  have ag: "agree 0 tk tk'" using len by (simp add: agree_def)
  from make_token_loop_agree [OF ag, of e]
  show ?thesis
  proof (elim disjE exE conjE)
    fix err assume "make_token_loop e tk 0 = Inl err" "make_token_loop e tk' 0 = Inl err"
    then show ?thesis by (simp add: expr_def make_token_def)
  next
    fix lexed a a' m
    assume l: "make_token_loop e tk 0 = Inr (lexed, a, m)"
      and l': "make_token_loop e tk' 0 = Inr (lexed, a', m)"
      and ag': "agree m a a'"
    show ?thesis
    proof (cases "lexed \<and> m \<noteq> 0")
      case False
      with l l' show ?thesis by (auto simp: expr_def make_token_def)
    next
      case True
      then have "cal_expr R M a 0 (int m - 1) = cal_expr R M a' 0 (int m - 1)"
        by (intro cal_expr_agree [OF ag']) auto
      with l l' True show ?thesis by (simp add: expr_def make_token_def)
    qed
  qed
qed

lemma cal_expr_empty:
  "cal_expr R M t 0 (- 1) = Inl AssertFail \<or> cal_expr R M t 0 (- 1) = Inl OutOfBounds"
  by (subst cal_expr.simps, subst (2) cal_expr.simps)
     (auto simp: check_parentheses_def check_parentheses_from.simps [of t 0]
                 strip_parentheses_def tk_type_def tk_at_def split: sum.splits)

lemma expr_buffer_independent:
  assumes len: "length tk = length tk'" and r: "expr R M tk e u = Inr x"
  shows "expr R M tk' e u = Inr x"
proof -
  from expr_agree [OF len, of e R M u]
  show ?thesis
  proof
    assume "\<exists>a. make_token e tk = Inr (True, a, 0)"
    then obtain a where a: "make_token e tk = Inr (True, a, 0)" ..
    with cal_expr_empty [of R M a] r show ?thesis by (auto simp: expr_def)
  next
    assume "expr R M tk e u = expr R M tk' e u"
    with r show ?thesis by simp
  qed
qed

lemma tokens_after_agree:
  assumes "length tk = length tk'" "make_token e tk = Inr (lexed, a, m)"
  shows "agree m (tokens_after e tk) (tokens_after e tk')"
proof -
  have "agree 0 tk tk'" using assms(1) by (simp add: agree_def)
  from make_token_loop_agree [OF this, of e] assms(2) show ?thesis
    by (auto simp: tokens_after_def make_token_def)
qed

lemma find_major_operator_agree:
  "agree n t t' \<Longrightarrow> e \<le> int n \<Longrightarrow> find_major_operator t b e = find_major_operator t' b e"
  using find_major_operator_from_agree [of n t t' e b] by (simp add: find_major_operator_def)

lemma tokens_init_length: "length tokens_init = 32"
  by (simp add: tokens_init_def)

section \<open>The loop of \<open>check_wp\<close> along the active ring\<close>

lemma check_node_frame:
  assumes "check_node R M u p (res, printed, h, tk) = Inr (res', printed', h', tk')"
  shows "next_of h' = next_of h" "prev_of h' = prev_of h" "id_of h' = id_of h"
    "expr_of h' = expr_of h"
    "\<And>q. q \<noteq> p \<Longrightarrow> counter_of h' q = counter_of h q \<and> last_val_of h' q = last_val_of h q"
    "\<exists>new. printed' = printed @ new \<and> (\<forall>c \<in> set new. fst c = id_of h p)"
  using assms
  by (auto simp: check_node_def Let_def split: if_splits sum.splits)

lemma check_nodes_frame:
  "check_nodes R M u xs (res, printed, h, tk) = Inr (res', printed', h', tk') \<Longrightarrow>
   next_of h' = next_of h \<and> prev_of h' = prev_of h \<and> id_of h' = id_of h
   \<and> expr_of h' = expr_of h
   \<and> (\<forall>q. q \<notin> set xs \<longrightarrow> counter_of h' q = counter_of h q \<and> last_val_of h' q = last_val_of h q)
   \<and> (\<exists>new. printed' = printed @ new \<and> (\<forall>c \<in> set new. fst c \<in> id_of h ` set xs))"
proof (induction xs arbitrary: res printed h tk)
  case Nil
  then show ?case by simp
next
  case (Cons p ps)
  from Cons.prems obtain r1 p1 h1 t1 where
    n: "check_node R M u p (res, printed, h, tk) = Inr (r1, p1, h1, t1)"
    and r: "check_nodes R M u ps (r1, p1, h1, t1) = Inr (res', printed', h', tk')"
    by (auto split: sum.splits)
  note f = check_node_frame [OF n]
  note g = Cons.IH [OF r]
  from f(6) obtain new1 where new1: "p1 = printed @ new1" "\<forall>c \<in> set new1. fst c = id_of h p"
    by blast
  from g obtain new2 where new2: "printed' = p1 @ new2" "\<forall>c \<in> set new2. fst c \<in> id_of h1 ` set ps"
    by blast
  have "printed' = printed @ (new1 @ new2)" using new1 new2 by simp
  moreover have "\<forall>c \<in> set (new1 @ new2). fst c \<in> id_of h ` set (p # ps)"
    using new1(2) new2(2) f(3) by auto
  ultimately have "\<exists>new. printed' = printed @ new \<and> (\<forall>c \<in> set new. fst c \<in> id_of h ` set (p # ps))"
    by blast
  with f g show ?case by auto
qed

lemma check_nodes_append:
  "check_nodes R M u (xs @ ys) st =
     (case check_nodes R M u xs st of Inl err \<Rightarrow> Inl err | Inr st' \<Rightarrow> check_nodes R M u ys st')"
  by (induction xs arbitrary: st) (auto split: sum.splits)

lemma check_wp_from_nodes:
  "dpath (next_of h) pv cur xs wp_head \<Longrightarrow> id_of h wp_head = - 1 \<Longrightarrow>
   \<forall>x \<in> set xs. id_of h x \<noteq> - 1 \<Longrightarrow>
   check_wp_from R M u cur res printed h tk = Some (check_nodes R M u xs (res, printed, h, tk))"
proof (induction xs arbitrary: cur res printed h tk)
  case Nil
  then show ?case by (subst check_wp_from.simps) simp
next
  case (Cons x xs)
  from Cons.prems have nx: "next_of h cur = x" and p: "dpath (next_of h) pv x xs wp_head"
    and ix: "id_of h x \<noteq> - 1" and ixs: "\<forall>y \<in> set xs. id_of h y \<noteq> - 1"
    by simp_all
  show ?case
  proof (cases "check_node R M u x (res, printed, h, tk)")
    case (Inl err)
    then show ?thesis
      using nx ix
      by (subst check_wp_from.simps)
         (auto simp: check_node_def Let_def split: if_splits sum.splits)
  next
    case (Inr st')
    obtain r1 p1 h1 t1 where st': "st' = (r1, p1, h1, t1)" by (cases st') auto
    note f = check_node_frame [OF Inr [unfolded st']]
    have "check_wp_from R M u x r1 p1 h1 t1 = Some (check_nodes R M u xs (r1, p1, h1, t1))"
      using p ixs Cons.prems(2) f(1,3) by (intro Cons.IH) simp_all
    moreover have "check_wp_from R M u cur res printed h tk = check_wp_from R M u x r1 p1 h1 t1"
      using nx ix Inr st'
      by (subst check_wp_from.simps)
         (auto simp: check_node_def Let_def split: if_splits sum.splits)
    ultimately show ?thesis using Inr st' by simp
  qed
qed

lemma filter_append_other:
  "\<forall>c \<in> set new. fst c \<noteq> k \<Longrightarrow> [c \<leftarrow> printed @ new. fst c = k] = [c \<leftarrow> printed. fst c = k]"
  by (induction new) auto

lemma check_nodes_skip:
  assumes "check_nodes R M u xs (res, printed, h, tk) = Inr (res', printed', h', tk')"
      and "p \<notin> set xs" "\<forall>x \<in> set xs. id_of h x \<noteq> id_of h p"
  shows "counter_of h' p = counter_of h p" "last_val_of h' p = last_val_of h p"
    "[c \<leftarrow> printed'. fst c = id_of h p] = [c \<leftarrow> printed. fst c = id_of h p]"
proof -
  note f = check_nodes_frame [OF assms(1)]
  from f assms(2) show "counter_of h' p = counter_of h p" "last_val_of h' p = last_val_of h p"
    by simp_all
  from f obtain new where new: "printed' = printed @ new" "\<forall>c \<in> set new. fst c \<in> id_of h ` set xs"
    by blast
  with assms(3) have "\<forall>c \<in> set new. fst c \<noteq> id_of h p" by fastforce
  with new(1) show "[c \<leftarrow> printed'. fst c = id_of h p] = [c \<leftarrow> printed. fst c = id_of h p]"
    by (simp add: filter_append_other)
qed

lemma check_node_at:
  assumes "check_node R M u p (res, printed, h, tk) = Inr (res', printed', h', tk')"
  shows "counter_of h p = 0 \<Longrightarrow>
           printed' = printed \<and> counter_of h' p = 1 \<and> last_val_of h' p = last_val_of h p"
    and "counter_of h p \<noteq> 0 \<Longrightarrow>
           counter_of h' p = counter_of h p + 1
           \<and> expr R M tk (expr_of h p) u = Inr (last_val_of h' p, True)
           \<and> printed' = printed @
               (if last_val_of h' p \<noteq> last_val_of h p
                then [(id_of h p, expr_of h p, last_val_of h p, last_val_of h' p)] else [])"
  using assms
  by (auto simp: check_node_def Let_def split: if_splits sum.splits)

lemma check_nodes_length:
  "check_nodes R M u xs (res, printed, h, tk) = Inr (res', printed', h', tk') \<Longrightarrow>
   length tk' = length tk"
proof (induction xs arbitrary: res printed h tk)
  case Nil
  then show ?case by simp
next
  case (Cons p ps)
  from Cons.prems obtain r1 p1 h1 t1 where
    n: "check_node R M u p (res, printed, h, tk) = Inr (r1, p1, h1, t1)"
    and r: "check_nodes R M u ps (r1, p1, h1, t1) = Inr (res', printed', h', tk')"
    by (auto split: sum.splits)
  from n have "length t1 = length tk"
    by (auto simp: check_node_def Let_def tokens_after_length split: if_splits sum.splits)
  with Cons.IH [OF r] show ?case by simp
qed

lemma check_nodes_at:
  assumes run: "check_nodes R M u xs (res, printed, h, tk) = Inr (res', printed', h', tk')"
      and p: "p \<in> set xs" and d: "distinct xs" and inj: "inj_on (id_of h) (set xs)"
  shows "counter_of h p = 0 \<Longrightarrow>
           [c \<leftarrow> printed'. fst c = id_of h p] = [c \<leftarrow> printed. fst c = id_of h p]
           \<and> counter_of h' p = 1 \<and> last_val_of h' p = last_val_of h p"
    and "counter_of h p \<noteq> 0 \<Longrightarrow>
           counter_of h' p = counter_of h p + 1
           \<and> expr R M tk (expr_of h p) u = Inr (last_val_of h' p, True)
           \<and> [c \<leftarrow> printed'. fst c = id_of h p] = [c \<leftarrow> printed. fst c = id_of h p] @
               (if last_val_of h' p \<noteq> last_val_of h p
                then [(id_of h p, expr_of h p, last_val_of h p, last_val_of h' p)] else [])"
proof -
  from p obtain pre post where xs: "xs = pre @ p # post" by (auto dest: split_list)
  with d have notin: "p \<notin> set pre" "p \<notin> set post" by auto
  from inj xs notin have ids: "\<forall>x \<in> set pre. id_of h x \<noteq> id_of h p"
    "\<forall>x \<in> set post. id_of h x \<noteq> id_of h p"
    by (auto simp: inj_on_def)
  from run xs obtain r1 p1 h1 t1 where
    a: "check_nodes R M u pre (res, printed, h, tk) = Inr (r1, p1, h1, t1)"
    and rest: "check_nodes R M u (p # post) (r1, p1, h1, t1) = Inr (res', printed', h', tk')"
    by (auto simp: check_nodes_append split: sum.splits)
  from rest obtain r2 p2 h2 t2 where
    b: "check_node R M u p (r1, p1, h1, t1) = Inr (r2, p2, h2, t2)"
    and c: "check_nodes R M u post (r2, p2, h2, t2) = Inr (res', printed', h', tk')"
    by (auto split: sum.splits)
  note fa = check_nodes_frame [OF a]
  note fb = check_node_frame [OF b]
  note sa = check_nodes_skip [OF a notin(1) ids(1)]
  have ids2: "\<forall>x \<in> set post. id_of h2 x \<noteq> id_of h2 p" using ids(2) fa fb(3) by simp
  note sc = check_nodes_skip [OF c notin(2) ids2]
  have i1: "id_of h1 p = id_of h p" "id_of h2 p = id_of h p" "expr_of h1 p = expr_of h p"
    using fa fb by simp_all
  {
    assume z: "counter_of h p = 0"
    with sa(1) have "counter_of h1 p = 0" by simp
    from check_node_at(1) [OF b this] sa sc i1
    show "[c \<leftarrow> printed'. fst c = id_of h p] = [c \<leftarrow> printed. fst c = id_of h p]
           \<and> counter_of h' p = 1 \<and> last_val_of h' p = last_val_of h p"
      by simp
  }
  {
    assume nz: "counter_of h p \<noteq> 0"
    with sa(1) have "counter_of h1 p \<noteq> 0" by simp
    note at = check_node_at(2) [OF b this]
    from at have "expr R M t1 (expr_of h1 p) u = Inr (last_val_of h2 p, True)" by simp
    from expr_buffer_independent [OF check_nodes_length [OF a] this]
    have "expr R M tk (expr_of h1 p) u = Inr (last_val_of h2 p, True)" .
    with at sa sc i1
    show "counter_of h' p = counter_of h p + 1
           \<and> expr R M tk (expr_of h p) u = Inr (last_val_of h' p, True)
           \<and> [c \<leftarrow> printed'. fst c = id_of h p] = [c \<leftarrow> printed. fst c = id_of h p] @
               (if last_val_of h' p \<noteq> last_val_of h p
                then [(id_of h p, expr_of h p, last_val_of h p, last_val_of h' p)] else [])"
      by auto
  }
qed

lemma wp_lists_ids_inj:
  assumes "wp_lists h fl al"
  shows "inj_on (id_of h) (set al)" "\<forall>x \<in> set al. id_of h x \<noteq> - 1" "id_of h wp_head = - 1"
proof -
  note n = wp_lists_nodes(3) [OF assms]
  show "inj_on (id_of h) (set al)"
  proof (rule inj_onI)
    fix x y assume "x \<in> set al" "y \<in> set al" "id_of h x = id_of h y"
    with n [of x] n [of y] show "x = y" by auto
  qed
  show "\<forall>x \<in> set al. id_of h x \<noteq> - 1" using n by fastforce
  from assms show "id_of h wp_head = - 1" by (simp add: wp_lists_def wp_ids_def)
qed

lemma check_wp_lists:
  assumes "wp_lists h fl al"
  shows "check_wp R M u h tk = Some (check_nodes R M u al (0, [], h, tk))"
proof -
  from assms have "dpath (next_of h) (prev_of h) wp_head al wp_head"
    by (simp add: wp_lists_def ring_def)
  from check_wp_from_nodes [OF this wp_lists_ids_inj(3,2) [OF assms]]
  show ?thesis by (simp add: check_wp_def)
qed

lemma wp_lists_frame:
  assumes "wp_lists h fl al" "next_of h' = next_of h" "prev_of h' = prev_of h" "id_of h' = id_of h"
  shows "wp_lists h' fl al"
  using assms by (simp add: wp_lists_def ring_def wp_ids_def)

lemma check_nodes_returns:
  assumes "\<forall>p \<in> set xs. \<exists>v. expr R M tk (expr_of h p) u = Inr (v, True)"
  shows "\<exists>res' printed' h' tk'.
           check_nodes R M u xs (res, printed, h, tk) = Inr (res', printed', h', tk')"
  using assms
proof (induction xs arbitrary: res printed h tk)
  case Nil
  then show ?case by simp
next
  case (Cons p ps)
  from Cons.prems obtain v where v: "expr R M tk (expr_of h p) u = Inr (v, True)" by auto
  then have "\<exists>st'. check_node R M u p (res, printed, h, tk) = Inr st'"
    by (cases "counter_of h p = 0") (simp_all add: check_node_def Let_def)
  then obtain r1 p1 h1 t1 where
    n: "check_node R M u p (res, printed, h, tk) = Inr (r1, p1, h1, t1)"
    by (metis prod_cases4)
  from n have len: "length t1 = length tk"
    by (auto simp: check_node_def Let_def tokens_after_length split: if_splits sum.splits)
  note f = check_node_frame [OF n]
  have "\<forall>q \<in> set ps. \<exists>v. expr R M t1 (expr_of h1 q) u = Inr (v, True)"
  proof
    fix q assume "q \<in> set ps"
    with Cons.prems obtain w where "expr R M tk (expr_of h q) u = Inr (w, True)" by auto
    from expr_buffer_independent [OF len [symmetric] this] f(4)
    show "\<exists>v. expr R M t1 (expr_of h1 q) u = Inr (v, True)" by auto
  qed
  then have "\<exists>res' printed' h' tk'.
          check_nodes R M u ps (r1, p1, h1, t1) = Inr (res', printed', h', tk')"
    by (rule Cons.IH)
  with n show ?case by simp
qed

lemma wp_watch_created:
  assumes "wp_inv h0" "wp_watch e v h0 = Inr (i, h)" and len: "length (c_str e) < 100"
  shows "\<exists>fl al. wp_lists h fl (Pool i # al) \<and> id_of h (Pool i) = i
           \<and> counter_of h (Pool i) = 0 \<and> last_val_of h (Pool i) = v
           \<and> expr_of h (Pool i) = c_str e"
proof -
  from assms(1) obtain fl al where l: "wp_lists h0 fl al" unfolding wp_inv_iff by blast
  show ?thesis
  proof (cases fl)
    case Nil
    with l assms(2) show ?thesis by (simp add: wp_watch_def new_wp_empty)
  next
    case (Cons x fl')
    with l have l': "wp_lists h0 (x # fl') al" by simp
    from wp_lists_nodes(3) [OF l', of x] obtain j where j: "x = Pool j" "id_of h0 x = j" by auto
    from wp_watch_lists [OF l' len, of v] assms(2) j
    have "i = j" "wp_lists h fl' (Pool j # al)" "id_of h = id_of h0"
      "expr_of h = (expr_of h0)(Pool j := c_str e)"
      "last_val_of h = (last_val_of h0)(Pool j := v)"
      "counter_of h = (counter_of h0)(Pool j := 0)"
      by auto
    with j show ?thesis by auto
  qed
qed

lemma check_wp_terminates:
  assumes "wp_inv h"
  shows "\<exists>r. check_wp R M u h tk = Some r"
proof -
  from assms obtain fl al where "wp_lists h fl al" unfolding wp_inv_iff by blast
  from check_wp_lists [OF this] show ?thesis by blast
qed

lemma check_wp_returns:
  assumes "wp_inv h" "active_list h = Some al"
      and ev: "\<forall>p \<in> set al. \<exists>w. expr R M tk (expr_of h p) u = Inr (w, True)"
  shows "\<exists>res printed h' tk'. check_wp R M u h tk = Some (Inr (res, printed, h', tk'))"
proof -
  from assms(1) obtain fl al' where l: "wp_lists h fl al'" unfolding wp_inv_iff by blast
  from assms(2) wp_lists_walk(2) [OF l] have al: "al' = al" by simp
  from check_nodes_returns [OF ev, of 0 "[]"] obtain res printed h' tk' where
    "check_nodes R M u al (0, [], h, tk) = Inr (res, printed, h', tk')" by blast
  with check_wp_lists [OF l, of R M u tk] al
  have "check_wp R M u h tk = Some (Inr (res, printed, h', tk'))" by simp
  then show ?thesis by blast
qed

lemma check_wp_at:
  assumes "wp_inv h" "active_list h = Some al" "p \<in> set al"
      and c: "check_wp R M u h tk = Some (Inr (res, printed, h', tk'))"
  shows "wp_inv h'" "active_list h' = Some al" "id_of h' = id_of h" "expr_of h' = expr_of h"
    and "counter_of h p = 0 \<Longrightarrow>
           [c \<leftarrow> printed. fst c = id_of h p] = [] \<and> counter_of h' p = 1
           \<and> last_val_of h' p = last_val_of h p"
    and "counter_of h p \<noteq> 0 \<Longrightarrow>
           counter_of h' p = counter_of h p + 1
           \<and> expr R M tk (expr_of h p) u = Inr (last_val_of h' p, True)
           \<and> [c \<leftarrow> printed. fst c = id_of h p] =
               (if last_val_of h' p \<noteq> last_val_of h p
                then [(id_of h p, expr_of h p, last_val_of h p, last_val_of h' p)]
                else [])"
proof -
  from assms(1) obtain fl al' where l0: "wp_lists h fl al'" unfolding wp_inv_iff by blast
  from assms(2) wp_lists_walk(2) [OF l0] have "al' = al" by simp
  with l0 have l: "wp_lists h fl al" by simp
  from c check_wp_lists [OF l, of R M u tk]
  have run: "check_nodes R M u al (0, [], h, tk) = Inr (res, printed, h', tk')" by simp
  note f = check_nodes_frame [OF run]
  from f have nx: "next_of h' = next_of h" and pv: "prev_of h' = prev_of h"
    and ids: "id_of h' = id_of h" and ex: "expr_of h' = expr_of h" by blast+
  have l': "wp_lists h' fl al" by (rule wp_lists_frame [OF l nx pv ids])
  from l' show "wp_inv h'" unfolding wp_inv_iff by blast
  from wp_lists_walk(2) [OF l'] show "active_list h' = Some al" .
  from ids ex show "id_of h' = id_of h" "expr_of h' = expr_of h" .
  from l have d: "distinct al" by (simp add: wp_lists_def)
  note inj = wp_lists_ids_inj(1) [OF l]
  {
    assume z: "counter_of h p = 0"
    from check_nodes_at(1) [OF run assms(3) d inj z]
    show "[c \<leftarrow> printed. fst c = id_of h p] = [] \<and> counter_of h' p = 1
           \<and> last_val_of h' p = last_val_of h p" by simp
  }
  {
    assume nz: "counter_of h p \<noteq> 0"
    from check_nodes_at(2) [OF run assms(3) d inj nz]
    show "counter_of h' p = counter_of h p + 1
           \<and> expr R M tk (expr_of h p) u = Inr (last_val_of h' p, True)
           \<and> [c \<leftarrow> printed. fst c = id_of h p] =
               (if last_val_of h' p \<noteq> last_val_of h p
                then [(id_of h p, expr_of h p, last_val_of h p, last_val_of h' p)]
                else [])" by simp
  }
qed

text \<open>
  \<open>expr\<close> hands the flag back as it found it, or false: it never makes it true. So where
  the flag reads false before the call, \<open>check_wp\<close> does not get past a watchpoint
  whose counter is not 0.
\<close>

lemma expr_flag: "expr R M tk e u = Inr (v, ok) \<Longrightarrow> ok \<Longrightarrow> u"
  by (auto simp: expr_def split: sum.splits prod.splits if_splits)

lemma check_wp_flag_false:
  assumes "wp_inv h" "active_list h = Some al" "p \<in> set al" "counter_of h p \<noteq> 0"
  shows "\<exists>err. check_wp R M False h tk = Some (Inl err)"
proof -
  from check_wp_terminates [OF assms(1), of R M False tk] obtain r where
    r: "check_wp R M False h tk = Some r" by blast
  show ?thesis
  proof (cases r)
    case (Inl err)
    with r show ?thesis by blast
  next
    case (Inr st)
    obtain res printed h' tk' where "st = (res, printed, h', tk')" by (cases st) auto
    with r Inr have c: "check_wp R M False h tk = Some (Inr (res, printed, h', tk'))" by simp
    from check_wp_at(6) [OF assms(1,2,3) c assms(4)]
    have "expr R M tk (expr_of h p) False = Inr (last_val_of h' p, True)" by simp
    from expr_flag [OF this] show ?thesis by simp
  qed
qed

section \<open>Claims about the expression engine\<close>

text \<open>
  C1. The claim: on every range that passes the balance check, is non-empty after one
  layer of parentheses is stripped and is longer than two tokens, the search for the
  major operator succeeds, so neither \<open>assert(major_op_pos != -1)\<close> nor the
  \<open>assert(0)\<close> on a negative depth can fail, and evaluation does not abort on an
  assertion. The code does reach both (the evaluations start from the token buffer as
  the process starts). For the text \<open>(1+2\<close> the range \<open>[0,3]\<close> passes
  \<open>check_parentheses\<close> (the count never goes negative), nothing is stripped, four
  tokens remain, and the search returns \<open>-1\<close>: \<open>cal_expr\<close> aborts. For \<open>-(1+2)\<close> the
  range \<open>[0,5]\<close> is balanced, nothing is stripped, the only token at depth 0 is the
  unary minus, which the search excludes, and it returns \<open>-1\<close> again. For \<open>(1)+(2)\<close> the
  range \<open>[0,6]\<close> passes the check, the unrelated outer parentheses are stripped, and on
  the five tokens left the depth counter of the search goes negative: the search itself
  aborts. For \<open>$a+1\<close> the range \<open>[0,2]\<close> is balanced and has three tokens; the search
  skips integers but not registers, asks \<open>get_priority\<close> for the priority of the
  register, and that is its \<open>assert(0)\<close>. In each case the call of \<open>expr\<close> does not
  return.
\<close>

theorem C1_major_operator_search_aborts:
  "check_parentheses (tokens_after ''(1+2'' tokens_init) 0 3 = Inr True
   \<and> strip_parentheses (tokens_after ''(1+2'' tokens_init) 0 3 = Inr (0, 3)
   \<and> find_major_operator (tokens_after ''(1+2'' tokens_init) 0 3 = Inr (- 1)
   \<and> cal_expr r m (tokens_after ''(1+2'' tokens_init) 0 3 = Inl AssertFail
   \<and> check_parentheses (tokens_after ''-(1+2)'' tokens_init) 0 5 = Inr True
   \<and> strip_parentheses (tokens_after ''-(1+2)'' tokens_init) 0 5 = Inr (0, 5)
   \<and> find_major_operator (tokens_after ''-(1+2)'' tokens_init) 0 5 = Inr (- 1)
   \<and> cal_expr r m (tokens_after ''-(1+2)'' tokens_init) 0 5 = Inl AssertFail
   \<and> check_parentheses (tokens_after ''(1)+(2)'' tokens_init) 0 6 = Inr True
   \<and> strip_parentheses (tokens_after ''(1)+(2)'' tokens_init) 0 6 = Inr (1, 5)
   \<and> find_major_operator (tokens_after ''(1)+(2)'' tokens_init) 1 5 = Inl AssertFail
   \<and> cal_expr r m (tokens_after ''(1)+(2)'' tokens_init) 0 6 = Inl AssertFail
   \<and> check_parentheses (tokens_after ''$a+1'' tokens_init) 0 2 = Inr True
   \<and> strip_parentheses (tokens_after ''$a+1'' tokens_init) 0 2 = Inr (0, 2)
   \<and> find_major_operator (tokens_after ''$a+1'' tokens_init) 0 2 = Inl AssertFail
   \<and> cal_expr r m (tokens_after ''$a+1'' tokens_init) 0 2 = Inl AssertFail
   \<and> expr r m tokens_init ''-(1+2)'' ok = Inl AssertFail
   \<and> expr r m tokens_init ''(1)+(2)'' ok = Inl AssertFail
   \<and> expr r m tokens_init ''$a+1'' ok = Inl AssertFail"
  by code_simp

text \<open>
  C2. The claim: evaluating \<open>(1+2\<close> returns with \<open>ok = false\<close> and does not crash. In
  the code the lexer accepts the text, \<open>check_parentheses\<close> accepts the unclosed
  parenthesis, and \<open>cal_expr\<close> fails its assertion: the call does not return, whatever
  the registers, the memory and the caller's flag are.
\<close>

theorem C2_unclosed_parenthesis_aborts:
  "make_token ''(1+2'' tokens_init = Inr (True, tokens_after ''(1+2'' tokens_init, 4)
   \<and> expr r m tokens_init ''(1+2'' ok = Inl AssertFail"
  by code_simp

text \<open>
  C3. The claim: on every general range the operator chosen is the rightmost token at
  depth 0 that has the lowest priority among the binary operators, so that \<open>1+2*3\<close> is
  7 and \<open>10-2-3\<close> is 5. The two texts do evaluate to 7 and 5. But the scan of
  \<open>find_major_operator\<close> skips the integers and not the registers: at a register at
  depth 0 it asks \<open>get_priority\<close> for the priority of an operand, and that is the
  \<open>assert(0)\<close> of \<open>get_priority\<close>. On every range (inside the token buffer) that has a
  register at depth 0 before its last token, no operator is chosen: the search aborts.
  For \<open>$pc+4\<close> the range \<open>[0,2]\<close> holds a register, a plus and an integer, the one
  binary operator at depth 0 is the \<open>+\<close> at 1, and the call of \<open>expr\<close> does not return.
\<close>

theorem C3_register_stops_the_search:
  "(0 \<le> b \<and> b \<le> i \<and> i < e \<and> e \<le> int (length tokens)
      \<and> tk_type tokens i = Inr TK_REG \<and> paren_depth tokens b i = 0
      \<longrightarrow> find_major_operator tokens b e = Inl AssertFail)
   \<and> make_token ''$pc+4'' tokens_init = Inr (True, tokens_after ''$pc+4'' tokens_init, 3)
   \<and> map type (take 3 (tokens_after ''$pc+4'' tokens_init)) = [TK_REG, TK_ADD, TK_INT]
   \<and> depth0_binary (tokens_after ''$pc+4'' tokens_init) 0 2 = [1]
   \<and> find_major_operator (tokens_after ''$pc+4'' tokens_init) 0 2 = Inl AssertFail
   \<and> expr r m tokens_init ''$pc+4'' ok = Inl AssertFail
   \<and> expr r m tokens_init ''1+2*3'' ok = Inr (7, ok)
   \<and> expr r m tokens_init ''10-2-3'' ok = Inr (5, ok)"
proof -
  have general: "0 \<le> b \<and> b \<le> i \<and> i < e \<and> e \<le> int (length tokens)
      \<and> tk_type tokens i = Inr TK_REG \<and> paren_depth tokens b i = 0
      \<longrightarrow> find_major_operator tokens b e = Inl AssertFail"
    unfolding find_major_operator_def
    using find_major_operator_from_register [of b i e tokens 0 "- 1" 2] by simp
  have lexed: "make_token ''$pc+4'' tokens_init = Inr (True, tokens_after ''$pc+4'' tokens_init, 3)"
    by code_simp
  have kinds: "map type (take 3 (tokens_after ''$pc+4'' tokens_init)) = [TK_REG, TK_ADD, TK_INT]"
    by code_simp
  have named: "depth0_binary (tokens_after ''$pc+4'' tokens_init) 0 2 = [1]"
    by code_simp
  have search: "find_major_operator (tokens_after ''$pc+4'' tokens_init) 0 2 = Inl AssertFail"
    by code_simp
  have call: "expr r m tokens_init ''$pc+4'' ok = Inl AssertFail"
    by code_simp
  have value1: "expr r m tokens_init ''1+2*3'' ok = Inr (7, ok)"
    by code_simp
  have value2: "expr r m tokens_init ''10-2-3'' ok = Inr (5, ok)"
    by code_simp
  from general lexed kinds named search call value1 value2 show ?thesis by blast
qed

theorem C3_witness:
  "tk_type (tokens_after ''$a+1*2'' tokens_init) 0 = Inr TK_REG
   \<and> depth0_binary (tokens_after ''$a+1*2'' tokens_init) 0 4 = [1, 3]
   \<and> map (priority_at (tokens_after ''$a+1*2'' tokens_init)) [1, 3] = [1, 2]
   \<and> find_major_operator (tokens_after ''$a+1*2'' tokens_init) 0 4 = Inl AssertFail"
proof -
  have reg: "tk_type (tokens_after ''$a+1*2'' tokens_init) 0 = Inr TK_REG"
    by code_simp
  have cands: "depth0_binary (tokens_after ''$a+1*2'' tokens_init) 0 4 = [1, 3]"
    by code_simp
  have prios: "map (priority_at (tokens_after ''$a+1*2'' tokens_init)) [1, 3] = [1, 2]"
    by code_simp
  have len: "(4 :: int) \<le> int (length (tokens_after ''$a+1*2'' tokens_init))"
    by (simp add: tokens_after_length tokens_init_length)
  from C3_register_stops_the_search
         [where tokens = "tokens_after ''$a+1*2'' tokens_init" and b = 0 and i = 0 and e = 4]
       reg len
  have "find_major_operator (tokens_after ''$a+1*2'' tokens_init) 0 4 = Inl AssertFail"
    by (simp add: paren_depth_start)
  with reg cands prios show ?thesis by blast
qed

text \<open>
  C4. The claim: \<open>5==5\<close> and \<open>1<2\<close> evaluate to 1 and \<open>2>=3\<close> to 0, each with
  \<open>ok = true\<close>. In the code the rule for \<open>>\<close> stands before the rule for \<open>>=\<close>, so at
  \<open>>=3\<close> the lexer takes \<open>>\<close> alone, no rule matches the \<open>=\<close> left over, and \<open>expr\<close>
  returns 0 with the flag set to false. The first two texts do evaluate to 1; the flag
  is then what the caller had put there, since \<open>expr\<close> never sets it to true.
\<close>

theorem C4_ge_is_not_lexed:
  "first_match rules ''>=3'' = Some (1, TK_BOOL_GT)
   \<and> first_match rules ''=3'' = None
   \<and> make_token ''2>=3'' tokens_init = Inr (False, tokens_after ''2>=3'' tokens_init, 2)
   \<and> expr r m tokens_init ''2>=3'' ok = Inr (0, False)
   \<and> expr r m tokens_init ''5==5'' ok = Inr (1, ok)
   \<and> expr r m tokens_init ''1<2'' ok = Inr (1, ok)"
  by code_simp



text \<open>
  C6. The claim: \<open>expr\<close> reports \<open>ok = false\<close> exactly when lexing, parsing or evaluation
  fails, and \<open>ok = true\<close> when it succeeds. In the code \<open>*success\<close> is written on one
  path only (the lexer failed: false). A register name that does not resolve makes
  \<open>cal_expr\<close> return 0 and leaves the flag as the caller had it; a successful
  evaluation leaves it as the caller had it too.
\<close>

theorem C6_success_flag_is_not_written:
  "expr (\<lambda>name. None) m tokens_init ''$zz'' ok = Inr (0, ok)
   \<and> expr r m tokens_init ''1'' ok = Inr (1, ok)"
  by code_simp

section \<open>Claims about the watchpoint pool\<close>

text \<open>
  C7. The claim: after the initialisation and after any sequence of creations and
  removals the two rings are valid and partition the 32 slots. \<open>wp_watch\<close> copies its
  text with \<open>strcpy\<close> into \<open>char expr[100]\<close>, whatever the length of the text. On the
  initialised pool, a creation with an expression of 127 bytes (one that \<open>expr\<close>
  evaluates, to 4) takes slot 0, returns and prints id 0; the bytes after the
  first 100 have gone over the \<open>counter\<close> of slot 0 and over the \<open>id\<close>, the \<open>next\<close> and
  the \<open>prev\<close> of slot 1, which is the first node of the free ring. The walk from
  \<open>free_\<close> does not come back, and no two lists of nodes are rings of \<open>free_\<close> and
  \<open>head\<close> that partition the pool.
\<close>

theorem C7_long_text_breaks_the_rings:
  "expr r m tokens_init sum_of_4 ok = Inr (4, ok)
   \<and> length (c_str sum_of_4) = 127
   \<and> map_sum id fst (wp_watch sum_of_4 4 init_wp_pool) = Inr 0
   \<and> wp_reachable (snd (projr (wp_watch sum_of_4 4 init_wp_pool)))
   \<and> active_list (snd (projr (wp_watch sum_of_4 4 init_wp_pool))) = Some [Pool 0]
   \<and> counter_of (snd (projr (wp_watch sum_of_4 4 init_wp_pool))) (Pool 0) = 808464432
   \<and> next_of (snd (projr (wp_watch sum_of_4 4 init_wp_pool))) wp_free = Pool 1
   \<and> id_of (snd (projr (wp_watch sum_of_4 4 init_wp_pool))) (Pool 1) = 808464432
   \<and> next_of (snd (projr (wp_watch sum_of_4 4 init_wp_pool))) (Pool 1)
       = Overwritten ''00000000'' (Pool 2)
   \<and> prev_of (snd (projr (wp_watch sum_of_4 4 init_wp_pool))) (Pool 1)
       = Overwritten (''0000001'' @ [CHR 0x00]) wp_free
   \<and> free_list (snd (projr (wp_watch sum_of_4 4 init_wp_pool))) = None
   \<and> \<not> wp_inv (snd (projr (wp_watch sum_of_4 4 init_wp_pool)))
   \<and> \<not> (\<exists>fl al. ring (snd (projr (wp_watch sum_of_4 4 init_wp_pool))) wp_free fl
             \<and> ring (snd (projr (wp_watch sum_of_4 4 init_wp_pool))) wp_head al
             \<and> set fl \<inter> set al = {} \<and> set fl \<union> set al = set pool_nodes)"
proof -
  let ?h = "snd (projr (wp_watch sum_of_4 4 init_wp_pool))"
  have evaluates: "expr r m tokens_init sum_of_4 ok = Inr (4, ok)" by code_simp
  have len: "length (c_str sum_of_4) = 127" by code_simp
  have ret: "map_sum id fst (wp_watch sum_of_4 4 init_wp_pool) = Inr 0" by code_simp
  then have "\<exists>h. wp_watch sum_of_4 4 init_wp_pool = Inr (0, h)"
    by (cases "wp_watch sum_of_4 4 init_wp_pool") auto
  then have w: "wp_watch sum_of_4 4 init_wp_pool = Inr (0, ?h)" by auto
  have reach: "wp_reachable ?h" by (rule wp_reachable.watch [OF wp_reachable.init w])
  have al: "active_list ?h = Some [Pool 0]" by code_simp
  have cnt: "counter_of ?h (Pool 0) = 808464432" by code_simp
  have first: "next_of ?h wp_free = Pool 1" by code_simp
  have ident: "id_of ?h (Pool 1) = 808464432" by code_simp
  have nx: "next_of ?h (Pool 1) = Overwritten ''00000000'' (Pool 2)" by code_simp
  have pv: "prev_of ?h (Pool 1) = Overwritten (''0000001'' @ [CHR 0x00]) wp_free" by code_simp
  have fl: "free_list ?h = None" by code_simp
  then have ninv: "\<not> wp_inv ?h" by (simp add: wp_inv_def)
  have norings: "\<not> (\<exists>fl al. ring ?h wp_free fl \<and> ring ?h wp_head al
             \<and> set fl \<inter> set al = {} \<and> set fl \<union> set al = set pool_nodes)"
  proof
    assume "\<exists>fl al. ring ?h wp_free fl \<and> ring ?h wp_head al
             \<and> set fl \<inter> set al = {} \<and> set fl \<union> set al = set pool_nodes"
    then obtain fl al where r: "ring ?h wp_free fl"
      and sub: "set fl \<union> set al = set pool_nodes" by blast
    from sub have nodes: "\<forall>x \<in> set fl. x \<in> set pool_nodes" by blast
    show False
    proof (cases fl)
      case Nil
      with r first show False by (simp add: ring_def)
    next
      case (Cons x xs)
      with r first have x: "x = Pool 1" and p: "dpath (next_of ?h) (prev_of ?h) (Pool 1) xs wp_free"
        by (simp_all add: ring_def)
      show False
      proof (cases xs)
        case Nil
        with p nx show False by simp
      next
        case (Cons y ys)
        with p nx have "y = Overwritten ''00000000'' (Pool 2)" by simp
        with nodes \<open>fl = x # xs\<close> Cons show False by (auto simp: pool_nodes_def)
      qed
    qed
  qed
  from evaluates len ret reach al cnt first ident nx pv fl ninv norings
  show ?thesis by (intro conjI)
qed

text \<open>
  C8, as stated: the 33rd creation fails with an error the caller can recover from.
  In the code the 33rd \<open>new_wp\<close> finds the free ring empty and runs \<open>assert(0)\<close>: the call
  does not return.
\<close>

theorem C8_pool_exhaustion_aborts:
  "(case wp_watch_all (replicate 32 (''1'', 1)) init_wp_pool of
      Inl err \<Rightarrow> False
    | Inr (ids, h) \<Rightarrow>
        ids = [0..31] \<and> new_wp h = Inl AssertFail \<and> wp_watch ''1'' 1 h = Inl AssertFail)"
proof -
  from creations_from_init [of "replicate 32 (''1'', 1)"] obtain h' where
    a: "wp_watch_all (replicate 32 (''1'', 1)) init_wp_pool = Inr ([0..31], h')"
    and b: "wp_lists h' [] (rev (map Pool [0..31]))"
    by (auto simp: c_str_def)
  from new_wp_empty [OF b] have "new_wp h' = Inl AssertFail" .
  then have "wp_watch ''1'' 1 h' = Inl AssertFail" by (simp add: wp_watch_def)
  with a \<open>new_wp h' = Inl AssertFail\<close> show ?thesis by simp
qed

text \<open>
  C8, amended: from the initialised pool, 32 calls of \<open>wp_watch\<close> (each with a text of
  at most 99 bytes) return and print the ids 0 to 31 in this order; a 33rd call, and a
  33rd \<open>new_wp\<close>, abort on \<open>assert(0)\<close>. In every memory that satisfies the invariant,
  \<open>free_wp k\<close> for a slot index \<open>k\<close> of the pool returns 0, and the next \<open>new_wp\<close>
  returns slot \<open>k\<close>, whose id is \<open>k\<close>; the next \<open>wp_watch\<close> prints \<open>k\<close>.
\<close>

theorem C8_ids_and_slot_reuse:
  "(length es = 32 \<and> (\<forall>ev \<in> set es. length (c_str (fst ev)) < 100) \<longrightarrow>
      (\<exists>h'. wp_watch_all es init_wp_pool = Inr ([0..31], h')
             \<and> new_wp h' = Inl AssertFail \<and> wp_watch e v h' = Inl AssertFail))
   \<and> (wp_inv h \<and> 0 \<le> k \<and> k < NR_WP \<longrightarrow>
        fst (free_wp k h) = 0
        \<and> (\<exists>h'. new_wp (snd (free_wp k h)) = Inr (Pool k, h') \<and> id_of h' (Pool k) = k)
        \<and> (length (c_str e) < 100 \<longrightarrow> (\<exists>h'. wp_watch e v (snd (free_wp k h)) = Inr (k, h'))))"
proof (intro conjI impI)
  assume "length es = 32 \<and> (\<forall>ev \<in> set es. length (c_str (fst ev)) < 100)"
  with creations_from_init [of es] obtain h' where
    a: "wp_watch_all es init_wp_pool = Inr ([0..31], h')"
    and b: "wp_lists h' [] (rev (map Pool [0..31]))"
    by auto
  from new_wp_empty [OF b] have n: "new_wp h' = Inl AssertFail" .
  then have "wp_watch e v h' = Inl AssertFail" by (simp add: wp_watch_def)
  with a n show "\<exists>h'. wp_watch_all es init_wp_pool = Inr ([0..31], h')
             \<and> new_wp h' = Inl AssertFail \<and> wp_watch e v h' = Inl AssertFail" by blast
next
  assume k: "wp_inv h \<and> 0 \<le> k \<and> k < NR_WP"
  then show "fst (free_wp k h) = 0" by (simp add: free_wp_def Let_def)
next
  assume k: "wp_inv h \<and> 0 \<le> k \<and> k < NR_WP"
  then obtain fl al where "wp_lists h fl al" unfolding wp_inv_iff by blast
  from free_wp_lists [OF this, of k] k
  have l: "wp_lists (snd (free_wp k h)) (Pool k # remove1 (Pool k) fl) (remove1 (Pool k) al)"
    by simp
  from wp_lists_nodes(3) [OF l, of "Pool k"] have i: "id_of (snd (free_wp k h)) (Pool k) = k"
    by simp
  from new_wp_lists(1) [OF l] i
  show "\<exists>h'. new_wp (snd (free_wp k h)) = Inr (Pool k, h') \<and> id_of h' (Pool k) = k"
    by simp
next
  assume k: "wp_inv h \<and> 0 \<le> k \<and> k < NR_WP" and e: "length (c_str e) < 100"
  then obtain fl al where "wp_lists h fl al" unfolding wp_inv_iff by blast
  from free_wp_lists [OF this, of k] k
  have l: "wp_lists (snd (free_wp k h)) (Pool k # remove1 (Pool k) fl) (remove1 (Pool k) al)"
    by simp
  from wp_lists_nodes(3) [OF l, of "Pool k"] have i: "id_of (snd (free_wp k h)) (Pool k) = k"
    by simp
  from wp_watch_lists [OF l e, of v] i
  show "\<exists>h'. wp_watch e v (snd (free_wp k h)) = Inr (k, h')" by auto
qed

theorem C8_witness:
  "(case wp_watch_all (replicate 32 (''$pc'', 7)) init_wp_pool of
      Inl err \<Rightarrow> False
    | Inr (ids, h) \<Rightarrow> ids = [0..31])
   \<and> fst (free_wp 5 init_wp_pool) = 0
   \<and> map_sum id fst (new_wp (snd (free_wp 5 init_wp_pool))) = Inr (Pool 5)
   \<and> map_sum id fst (wp_watch ''$pc'' 7 (snd (free_wp 5 init_wp_pool))) = Inr 5"
proof -
  note c8 = C8_ids_and_slot_reuse [of "replicate 32 (''$pc'', 7)" "''$pc''" 7 init_wp_pool 5]
  have len: "length (c_str ''$pc'') < 100" by (simp add: c_str_def)
  have "length (replicate 32 (''$pc'', 7 :: word_t)) = 32
        \<and> (\<forall>ev \<in> set (replicate 32 (''$pc'', 7 :: word_t)). length (c_str (fst ev)) < 100)"
    using len by simp
  with c8 obtain h' where
    "wp_watch_all (replicate 32 (''$pc'', 7)) init_wp_pool = Inr ([0..31], h')" by blast
  moreover from c8 wp_inv_init len
  have "fst (free_wp 5 init_wp_pool) = 0"
    and "\<exists>h'. new_wp (snd (free_wp 5 init_wp_pool)) = Inr (Pool 5, h')"
    and "\<exists>h'. wp_watch ''$pc'' 7 (snd (free_wp 5 init_wp_pool)) = Inr (5, h')"
    by auto
  ultimately show ?thesis by auto
qed

text \<open>
  C9. The claim: the first check after a creation does not report the new watchpoint;
  a later check, after the value of its expression has changed, reports exactly one
  change for it and stores the new value; a further check reports nothing. In
  \<open>check_wp\<close> the local \<open>success\<close> is declared without a value, \<open>expr\<close> never sets it to
  true, and the loop runs \<open>assert(0)\<close> when it reads false. So whenever it reads
  false, a check of a memory that has an active watchpoint with a counter other than
  0 does not return. After \<open>$a\<close> was created with the value 5, the first check
  returns 0, prints nothing and leaves the counter at 1; with \<open>$a\<close> now at 6, the
  second check aborts where the flag reads false, and reports the one change from 5
  to 6 only where it reads true.
\<close>

theorem C9_unset_flag_aborts_the_check:
  "(expr R M tk e u = Inr (v, ok) \<and> ok \<longrightarrow> u)
   \<and> (wp_inv h \<and> active_list h = Some al \<and> p \<in> set al \<and> counter_of h p \<noteq> 0
        \<longrightarrow> (\<exists>err. check_wp R M False h tk = Some (Inl err)))"
proof -
  have flag: "expr R M tk e u = Inr (v, ok) \<and> ok \<longrightarrow> u"
    using expr_flag [of R M tk e u v ok] by blast
  have aborts: "wp_inv h \<and> active_list h = Some al \<and> p \<in> set al \<and> counter_of h p \<noteq> 0
        \<longrightarrow> (\<exists>err. check_wp R M False h tk = Some (Inl err))"
    using check_wp_flag_false [of h al p R M tk] by blast
  from flag aborts show ?thesis by blast
qed

theorem C9_witness:
  "map_sum id fst (wp_watch ''$a'' 5 init_wp_pool) = Inr 0
   \<and> (case check_wp (\<lambda>s. if s = ''$a'' then Some 6 else None) (\<lambda>a n. 0) False
               (snd (projr (wp_watch ''$a'' 5 init_wp_pool))) tokens_init of
         Some (Inr (r1, p1, h2, t2)) \<Rightarrow>
           r1 = 0 \<and> p1 = [] \<and> counter_of h2 (Pool 0) = 1 \<and> last_val_of h2 (Pool 0) = 5
           \<and> (case check_wp (\<lambda>s. if s = ''$a'' then Some 6 else None) (\<lambda>a n. 0) False h2 t2 of
                 Some (Inl err) \<Rightarrow> err = AssertFail
               | _ \<Rightarrow> False)
       | _ \<Rightarrow> False)
   \<and> (let c1 = check_wp (\<lambda>s. if s = ''$a'' then Some 6 else None) (\<lambda>a n. 0) False
                  (snd (projr (wp_watch ''$a'' 5 init_wp_pool))) tokens_init;
           h2 = fst (snd (snd (projr (the c1))));
           t2 = snd (snd (snd (projr (the c1))))
       in wp_inv h2 \<and> active_list h2 = Some [Pool 0] \<and> counter_of h2 (Pool 0) = 1
          \<and> (\<exists>err. check_wp (\<lambda>s. if s = ''$a'' then Some 6 else None) (\<lambda>a n. 0) False h2 t2
                     = Some (Inl err)))
   \<and> (case check_wp (\<lambda>s. if s = ''$a'' then Some 6 else None) (\<lambda>a n. 0) True
               (snd (projr (wp_watch ''$a'' 5 init_wp_pool))) tokens_init of
         Some (Inr (r1, p1, h2, t2)) \<Rightarrow>
           r1 = 0 \<and> p1 = [] \<and>
           (case check_wp (\<lambda>s. if s = ''$a'' then Some 6 else None) (\<lambda>a n. 0) True h2 t2 of
              Some (Inr (r2, p2, h3, t3)) \<Rightarrow>
                r2 = 1 \<and> p2 = [(0, ''$a'', 5, 6)] \<and> last_val_of h3 (Pool 0) = 6 \<and>
                (case check_wp (\<lambda>s. if s = ''$a'' then Some 6 else None) (\<lambda>a n. 0) True h3 t3 of
                   Some (Inr (r3, p3, h4, t4)) \<Rightarrow> r3 = 0 \<and> p3 = []
                 | _ \<Rightarrow> False)
            | _ \<Rightarrow> False)
       | _ \<Rightarrow> False)"
proof -
  let ?R = "\<lambda>s. if s = ''$a'' then Some (6 :: word_t) else None"
  let ?M = "\<lambda>(a :: word_t) (n :: nat). 0 :: word_t"
  let ?h1 = "snd (projr (wp_watch ''$a'' 5 init_wp_pool))"
  let ?c1 = "check_wp ?R ?M False ?h1 tokens_init"
  let ?h2 = "fst (snd (snd (projr (the ?c1))))"
  let ?t2 = "snd (snd (snd (projr (the ?c1))))"
  have created: "map_sum id fst (wp_watch ''$a'' 5 init_wp_pool) = Inr 0" by code_simp
  have unset: "(case ?c1 of
         Some (Inr (r1, p1, h2, t2)) \<Rightarrow>
           r1 = 0 \<and> p1 = [] \<and> counter_of h2 (Pool 0) = 1 \<and> last_val_of h2 (Pool 0) = 5
           \<and> (case check_wp ?R ?M False h2 t2 of
                 Some (Inl err) \<Rightarrow> err = AssertFail
               | _ \<Rightarrow> False)
       | _ \<Rightarrow> False)"
    by code_simp
  have inv: "wp_inv ?h2" by code_simp
  have al: "active_list ?h2 = Some [Pool 0]" by code_simp
  have cnt: "counter_of ?h2 (Pool 0) = 1" by code_simp
  from C9_unset_flag_aborts_the_check
         [where h = ?h2 and al = "[Pool 0]" and p = "Pool 0" and R = ?R and M = ?M and tk = ?t2]
       inv al cnt
  have "\<exists>err. check_wp ?R ?M False ?h2 ?t2 = Some (Inl err)" by simp
  with inv al cnt have general: "(let c1 = ?c1;
           h2 = fst (snd (snd (projr (the c1))));
           t2 = snd (snd (snd (projr (the c1))))
       in wp_inv h2 \<and> active_list h2 = Some [Pool 0] \<and> counter_of h2 (Pool 0) = 1
          \<and> (\<exists>err. check_wp ?R ?M False h2 t2 = Some (Inl err)))"
    by (simp only: Let_def)
  have set: "(case check_wp ?R ?M True ?h1 tokens_init of
         Some (Inr (r1, p1, h2, t2)) \<Rightarrow>
           r1 = 0 \<and> p1 = [] \<and>
           (case check_wp ?R ?M True h2 t2 of
              Some (Inr (r2, p2, h3, t3)) \<Rightarrow>
                r2 = 1 \<and> p2 = [(0, ''$a'', 5, 6)] \<and> last_val_of h3 (Pool 0) = 6 \<and>
                (case check_wp ?R ?M True h3 t3 of
                   Some (Inr (r3, p3, h4, t4)) \<Rightarrow> r3 = 0 \<and> p3 = []
                 | _ \<Rightarrow> False)
            | _ \<Rightarrow> False)
       | _ \<Rightarrow> False)"
    by code_simp
  from created unset general set show ?thesis by (intro conjI)
qed

text \<open>
  C10, as stated: \<open>print_wp\<close> lists the active watchpoints most recent first. The loop
  of \<open>print_wp\<close> follows the \<open>prev\<close> pointers from \<open>head\<close>, and \<open>new_wp\<close> links a new node
  right after \<open>head\<close> in the \<open>next\<close> direction: after creating \<open>1\<close> and then \<open>2\<close> the
  lines are those of id 0 and then of id 1, the older one first, while the ring read
  along \<open>next\<close> (as \<open>check_wp\<close> reads it) has slot 1 before slot 0.
\<close>

theorem C10_print_wp_is_oldest_first:
  "(case wp_watch_all [(''1'', 1), (''2'', 2)] init_wp_pool of
      Inl err \<Rightarrow> False
    | Inr (ids, h) \<Rightarrow>
        ids = [0, 1] \<and> print_wp h = Some [(0, ''1'', 1), (1, ''2'', 2)]
        \<and> active_list h = Some [Pool 1, Pool 0])"
  by code_simp

text \<open>
  C10, amended: after any sequence of at most 32 creations on the initialised pool
  (texts of at most 99 bytes), \<open>print_wp\<close> returns and lists the watchpoints in the
  order of their creation, the oldest first, each with its id, its text and its value;
  the active ring read along \<open>next\<close> is the reverse of that order. In every memory that
  satisfies the invariant, \<open>print_wp\<close> lists the active ring in reverse.
\<close>

theorem C10_print_wp_creation_order:
  "(length es \<le> 32 \<and> (\<forall>ev \<in> set es. length (c_str (fst ev)) < 100) \<longrightarrow>
      (\<exists>h'. wp_watch_all es init_wp_pool = Inr ([0..int (length es) - 1], h')
             \<and> print_wp h' =
                 Some (map (\<lambda>(i, ev). (i, c_str (fst ev), snd ev)) (zip [0..int (length es) - 1] es))
             \<and> active_list h' = Some (rev (map Pool [0..int (length es) - 1]))))
   \<and> (wp_inv h \<longrightarrow>
        (\<exists>al. active_list h = Some al \<and> print_wp h = Some (map (line_of h) (rev al))))"
proof (intro conjI impI)
  assume "length es \<le> 32 \<and> (\<forall>ev \<in> set es. length (c_str (fst ev)) < 100)"
  with creations_from_init [of es] obtain h' where
    a: "wp_watch_all es init_wp_pool = Inr ([0..int (length es) - 1], h')"
    and b: "wp_lists h' (map Pool [int (length es)..31]) (rev (map Pool [0..int (length es) - 1]))"
    and c: "map (line_of h') (map Pool [0..int (length es) - 1])
               = map (\<lambda>(i, ev). (i, c_str (fst ev), snd ev)) (zip [0..int (length es) - 1] es)"
    by blast
  from print_wp_lists [OF b] c
  have "print_wp h' =
          Some (map (\<lambda>(i, ev). (i, c_str (fst ev), snd ev)) (zip [0..int (length es) - 1] es))"
    by (simp add: rev_map)
  with a wp_lists_walk(2) [OF b]
  show "\<exists>h'. wp_watch_all es init_wp_pool = Inr ([0..int (length es) - 1], h')
             \<and> print_wp h' =
                 Some (map (\<lambda>(i, ev). (i, c_str (fst ev), snd ev)) (zip [0..int (length es) - 1] es))
             \<and> active_list h' = Some (rev (map Pool [0..int (length es) - 1]))"
    by blast
next
  assume "wp_inv h"
  then obtain fl al where l: "wp_lists h fl al" unfolding wp_inv_iff by blast
  from wp_lists_walk(2) [OF l] print_wp_lists [OF l]
  show "\<exists>al. active_list h = Some al \<and> print_wp h = Some (map (line_of h) (rev al))"
    by blast
qed

theorem C10_witness:
  "(case wp_watch_all [(''$a'', 5), (''1+2'', 3), (''$a'', 5)] init_wp_pool of
      Inl err \<Rightarrow> False
    | Inr (ids, h) \<Rightarrow>
        ids = [0, 1, 2] \<and> print_wp h = Some [(0, ''$a'', 5), (1, ''1+2'', 3), (2, ''$a'', 5)])"
proof -
  let ?es = "[(''$a'', 5 :: word_t), (''1+2'', 3), (''$a'', 5)]"
  have pre: "length ?es \<le> 32 \<and> (\<forall>ev \<in> set ?es. length (c_str (fst ev)) < 100)"
    by (simp add: c_str_def)
  have ids: "[0..int (length ?es) - 1] = [0, 1, 2]" by code_simp
  have lines: "map (\<lambda>(i, ev). (i, c_str (fst ev), snd ev)) (zip [0..int (length ?es) - 1] ?es)
               = [(0, ''$a'', 5), (1, ''1+2'', 3), (2, ''$a'', 5)]" by code_simp
  from C10_print_wp_creation_order [of ?es init_wp_pool] pre obtain h' where
    a: "wp_watch_all ?es init_wp_pool = Inr ([0..int (length ?es) - 1], h')"
    and b: "print_wp h' =
       Some (map (\<lambda>(i, ev). (i, c_str (fst ev), snd ev)) (zip [0..int (length ?es) - 1] ?es))"
    by blast
  from a have a': "wp_watch_all ?es init_wp_pool = Inr ([0, 1, 2], h')"
    by (simp only: ids)
  from b have b': "print_wp h' = Some [(0, ''$a'', 5), (1, ''1+2'', 3), (2, ''$a'', 5)]"
    by (simp only: lines)
  show ?thesis by (simp add: a' b' del: wp_watch_all.simps)
qed

section \<open>Further evaluations\<close>

text \<open>
  Where the search for the major operator returns, \<open>find_major_operator_spec\<close> says
  what it returns. The loop stops before \<open>end_index\<close>, so the last token of a range is
  no candidate: on the tokens of \<open>1*2+\<close>, which is no expression, the search returns
  the \<open>*\<close>. \<open>1+2*3\<close> and \<open>10-2-3\<close> are split at the \<open>+\<close> and at the second \<open>-\<close> and give
  7 and 5, whatever the 32 entries of the token buffer held before the call.
\<close>

lemma last_token_is_no_candidate:
  "find_major_operator (tokens_after ''1*2+'' tokens_init) 0 3 = Inr 1
   \<and> depth0_binary (tokens_after ''1*2+'' tokens_init) 0 3 = [1, 3]"
  by code_simp

lemma precedence_examples_any_buffer:
  assumes "length tk = 32"
  shows "find_major_operator (tokens_after ''1+2*3'' tk) 0 4 = Inr 1"
    and "expr r m tk ''1+2*3'' ok = Inr (7, ok)"
    and "find_major_operator (tokens_after ''10-2-3'' tk) 0 4 = Inr 3"
    and "expr r m tk ''10-2-3'' ok = Inr (5, ok)"
proof -
  from assms have len: "length tokens_init = length tk" by (simp add: tokens_init_length)
  have lexed1: "make_token ''1+2*3'' tokens_init =
                  Inr (True, tokens_after ''1+2*3'' tokens_init, 5)"
    by code_simp
  have split1: "find_major_operator (tokens_after ''1+2*3'' tokens_init) 0 4 = Inr 1"
    by code_simp
  have value1: "expr r m tokens_init ''1+2*3'' ok = Inr (7, ok)"
    by code_simp
  have lexed2: "make_token ''10-2-3'' tokens_init =
                  Inr (True, tokens_after ''10-2-3'' tokens_init, 5)"
    by code_simp
  have split2: "find_major_operator (tokens_after ''10-2-3'' tokens_init) 0 4 = Inr 3"
    by code_simp
  have value2: "expr r m tokens_init ''10-2-3'' ok = Inr (5, ok)"
    by code_simp
  from find_major_operator_agree [OF tokens_after_agree [OF len lexed1], of 4 0] split1
  show "find_major_operator (tokens_after ''1+2*3'' tk) 0 4 = Inr 1" by simp
  from find_major_operator_agree [OF tokens_after_agree [OF len lexed2], of 4 0] split2
  show "find_major_operator (tokens_after ''10-2-3'' tk) 0 4 = Inr 3" by simp
  show "expr r m tk ''1+2*3'' ok = Inr (7, ok)" by (rule expr_buffer_independent [OF len value1])
  show "expr r m tk ''10-2-3'' ok = Inr (5, ok)" by (rule expr_buffer_independent [OF len value2])
qed

text \<open>
  From the token buffer as the process starts: parentheses override the
  priorities (\<open>(1+2)*3\<close> gives 9); a dereference reads the 8-byte word at the address
  its operand evaluates to; a register reference gives what the resolver reports for
  the token text, the dollar sign included.
\<close>

theorem expr_parentheses_dereference_register:
  "expr r m tokens_init ''(1+2)*3'' ok = Inr (9, ok)
   \<and> expr r m tokens_init ''*0x1000'' ok = Inr (m 0x1000 8, ok)
   \<and> expr (\<lambda>name. if name = ''$pc'' then Some v else None) m tokens_init ''$pc'' ok
       = Inr (v, ok)"
  by code_simp

text \<open>
  Division truncates towards zero: \<open>-7/2\<close> gives -3. Integer literals follow
  \<open>strtol\<close> with base 0: \<open>0x10\<close> is 16 and \<open>010\<close> is 8.
\<close>

theorem expr_division_and_literals:
  "expr r m tokens_init ''-7/2'' ok = Inr (- 3, ok)
   \<and> expr r m tokens_init ''0x10+010'' ok = Inr (24, ok)"
  by code_simp

end
